theory Spec2Isabelle
  imports Complex_Main "HOL-Library.Multiset"
begin

section \<open>Markers and segments\<close>

text \<open>
  A marker is the dictionary the source keeps in \<^verbatim>\<open>MarkerManager.markers\<close>, with the keys
  \<^verbatim>\<open>time\<close>, \<^verbatim>\<open>name\<close>, \<^verbatim>\<open>comment\<close> and \<^verbatim>\<open>content\<close>. Times are Python floats in the source;
  here they are rationals, compared and subtracted exactly (no rounding, no NaN).
  The two text keys carry the suffix of the record because the segment has fields of the
  same name.
\<close>

record marker =
  time :: rat
  name :: string
  marker_comment :: string
  marker_content :: string

text \<open>The class \<^verbatim>\<open>Segment\<close> of \<^verbatim>\<open>segment.py\<close>.\<close>

record segment =
  index :: nat
  start_time :: rat
  end_time :: rat
  duration :: rat
  comment :: string
  content :: string

datatype error = ValueError | IndexError

text \<open>\<^verbatim>\<open>Segment.__init__\<close>: raises \<^verbatim>\<open>ValueError\<close> when the start lies after the end.\<close>

definition Segment :: "nat \<Rightarrow> rat \<Rightarrow> rat \<Rightarrow> string \<Rightarrow> string \<Rightarrow> error + segment" where
  "Segment i s e c x =
     (if s > e then Inl ValueError
      else Inr \<lparr>index = i, start_time = s, end_time = e, duration = e - s,
                comment = c, content = x\<rparr>)"

text \<open>\<^verbatim>\<open>Segment.contains_time\<close>: the closed interval.\<close>

definition contains_time :: "segment \<Rightarrow> rat \<Rightarrow> bool" where
  "contains_time s t \<longleftrightarrow> start_time s \<le> t \<and> t \<le> end_time s"

subsection \<open>Content migration inside \<^verbatim>\<open>_calculate_segments\<close>\<close>

text \<open>
  \<^verbatim>\<open>used_old_segments\<close> is a Python set. It is kept here as the list of the
  \<^verbatim>\<open>add\<close> calls in the order they happen; the membership test is the one of the source.
  A segment consumed twice would show as a repeated entry.

  The first inner loop: the first unused old segment that matches exactly, or that contains
  the new range and starts where it starts, gives its content and ends the loop.
\<close>

fun exact_or_split ::
  "(nat \<times> segment) list \<Rightarrow> nat list \<Rightarrow> rat \<Rightarrow> rat \<Rightarrow> string \<times> nat list" where
  "exact_or_split [] used new_start new_end = ([], used)"
| "exact_or_split ((j, old_seg) # rest) used new_start new_end =
     (if j \<in> set used then exact_or_split rest used new_start new_end
      else if start_time old_seg = new_start \<and> end_time old_seg = new_end
        then (content old_seg, used @ [j])
      else if start_time old_seg \<le> new_start \<and> new_start < new_end
                \<and> new_end \<le> end_time old_seg
        then (if new_start = start_time old_seg then (content old_seg, used @ [j])
              else exact_or_split rest used new_start new_end)
      else exact_or_split rest used new_start new_end)"

text \<open>\<^verbatim>\<open>"\n".join(parts)\<close>.\<close>

fun join_newline :: "string list \<Rightarrow> string" where
  "join_newline [] = []"
| "join_newline [p] = p"
| "join_newline (p # q # ps) = p @ [CHR 0x0A] @ join_newline (q # ps)"

definition merged_content :: "segment \<Rightarrow> segment \<Rightarrow> string" where
  "merged_content old_seg old_seg2 =
     join_newline ((if content old_seg \<noteq> [] then [content old_seg] else [])
                 @ (if content old_seg2 \<noteq> [] then [content old_seg2] else []))"

text \<open>
  The loop over \<^verbatim>\<open>k\<close> inside the merge loop: the first unused partner ends it
  (\<^verbatim>\<open>break\<close>); \<open>None\<close> when the loop runs to its end.
\<close>

fun merge_partner ::
  "(nat \<times> segment) list \<Rightarrow> nat \<Rightarrow> segment \<Rightarrow> nat list \<Rightarrow> rat \<Rightarrow> (string \<times> nat list) option" where
  "merge_partner [] j old_seg used new_end = None"
| "merge_partner ((k, old_seg2) # rest) j old_seg used new_end =
     (if k \<in> set used \<or> k = j then merge_partner rest j old_seg used new_end
      else if end_time old_seg2 = new_end \<and> end_time old_seg = start_time old_seg2
        then Some (merged_content old_seg old_seg2, used @ [j, k])
      else merge_partner rest j old_seg used new_end)"

text \<open>
  The merge loop over \<^verbatim>\<open>j\<close>. The \<^verbatim>\<open>break\<close> of the source leaves the loop over
  \<^verbatim>\<open>k\<close> only, so the loop over \<^verbatim>\<open>j\<close> goes on with the new content and the new set.
\<close>

fun merge_pass ::
  "(nat \<times> segment) list \<Rightarrow> (nat \<times> segment) list \<Rightarrow> string \<Rightarrow> nat list \<Rightarrow> rat \<Rightarrow> rat
     \<Rightarrow> string \<times> nat list" where
  "merge_pass existing [] preserved_content used new_start new_end = (preserved_content, used)"
| "merge_pass existing ((j, old_seg) # rest) preserved_content used new_start new_end =
     (if j \<in> set used then merge_pass existing rest preserved_content used new_start new_end
      else if start_time old_seg = new_start
        then (case merge_partner existing j old_seg used new_end of
                None \<Rightarrow> merge_pass existing rest preserved_content used new_start new_end
              | Some (c, used') \<Rightarrow> merge_pass existing rest c used' new_start new_end)
      else merge_pass existing rest preserved_content used new_start new_end)"

text \<open>Both loops for one new segment, in the order of the source.\<close>

definition preserve_content ::
  "segment list \<Rightarrow> nat list \<Rightarrow> rat \<Rightarrow> rat \<Rightarrow> string \<times> nat list" where
  "preserve_content existing_segments used new_start new_end =
     (case exact_or_split (enumerate 0 existing_segments) used new_start new_end of
        (c, used1) \<Rightarrow>
          merge_pass (enumerate 0 existing_segments) (enumerate 0 existing_segments)
            c used1 new_start new_end)"

text \<open>
  The loop \<^verbatim>\<open>for i in range(len(sorted_markers) - 1)\<close>, on the markers from position
  \<open>i\<close> on. It returns the segments appended and the final \<^verbatim>\<open>used_old_segments\<close>;
  a \<^verbatim>\<open>ValueError\<close> of the constructor leaves the loop.
\<close>

fun segments_from ::
  "segment list \<Rightarrow> marker list \<Rightarrow> nat \<Rightarrow> nat list \<Rightarrow> error + (segment list \<times> nat list)" where
  "segments_from existing_segments (start_marker # end_marker # rest) i used =
     (let r = preserve_content existing_segments used (time start_marker) (time end_marker)
      in case Segment i (time start_marker) (time end_marker)
                (marker_comment start_marker) (fst r) of
           Inl e \<Rightarrow> Inl e
         | Inr seg \<Rightarrow>
            (case segments_from existing_segments (end_marker # rest) (Suc i) (snd r) of
               Inl e \<Rightarrow> Inl e
             | Inr (segs, used') \<Rightarrow> Inr (seg # segs, used')))"
| "segments_from existing_segments [m] i used = Inr ([], used)"
| "segments_from existing_segments [] i used = Inr ([], used)"

text \<open>
  \<^verbatim>\<open>SegmentManager._calculate_segments\<close>, as a function of the marker list and of the
  previous \<^verbatim>\<open>self.segments\<close>; Python's \<^verbatim>\<open>sorted\<close> is stable, as \<open>sort_key\<close> is.
\<close>

definition calculate_run ::
  "marker list \<Rightarrow> segment list \<Rightarrow> error + (segment list \<times> nat list)" where
  "calculate_run ms existing_segments =
     (let sorted_markers = sort_key time ms
      in if length sorted_markers < 2 then Inr ([], [])
         else segments_from existing_segments sorted_markers 0 [])"

definition calculate_segments :: "marker list \<Rightarrow> segment list \<Rightarrow> error + segment list" where
  "calculate_segments ms existing_segments =
     (case calculate_run ms existing_segments of
        Inl e \<Rightarrow> Inl e
      | Inr (segs, used) \<Rightarrow> Inr segs)"

definition used_old_segments :: "marker list \<Rightarrow> segment list \<Rightarrow> nat list" where
  "used_old_segments ms existing_segments =
     (case calculate_run ms existing_segments of
        Inl e \<Rightarrow> []
      | Inr (segs, used) \<Rightarrow> used)"

subsection \<open>\<^verbatim>\<open>get_segment_at_time\<close>\<close>

text \<open>
  Python's \<^verbatim>\<open>max(xs, key=...)\<close> keeps the first of several maximal elements: the
  candidate is replaced only by a strictly greater key.
\<close>

fun max_by_index :: "segment \<Rightarrow> segment list \<Rightarrow> segment" where
  "max_by_index best [] = best"
| "max_by_index best (s # ss) = max_by_index (if index best < index s then s else best) ss"

definition get_segment_at_time :: "segment list \<Rightarrow> rat \<Rightarrow> segment option" where
  "get_segment_at_time segments t =
     (case filter (\<lambda>s. contains_time s t) segments of
        [] \<Rightarrow> None
      | s # ss \<Rightarrow> Some (max_by_index s ss))"

subsection \<open>Ranges of a segment list\<close>

text \<open>
  The time ranges of a segment list, and the consecutive pairs of a list of times: the
  segments that a recomputation leaves behind have the consecutive pairs of the sorted
  marker times as their ranges, whatever content they have received since.
\<close>

definition ranges :: "segment list \<Rightarrow> (rat \<times> rat) list" where
  "ranges segs = map (\<lambda>s. (start_time s, end_time s)) segs"

definition consecutive :: "rat list \<Rightarrow> (rat \<times> rat) list" where
  "consecutive ts = zip ts (tl ts)"

text \<open>
  The test of the first inner loop, in one formula: the old segment starts where the new one
  starts and either ends where it ends or reaches at least as far.
\<close>

definition matches :: "segment \<Rightarrow> rat \<Rightarrow> rat \<Rightarrow> bool" where
  "matches old_seg new_start new_end \<longleftrightarrow>
     start_time old_seg = new_start \<and>
       (end_time old_seg = new_end \<or> (new_start < new_end \<and> new_end \<le> end_time old_seg))"

text \<open>Short forms for the examples.\<close>

definition mk :: "rat \<Rightarrow> string \<Rightarrow> marker" where
  "mk t n = \<lparr>time = t, name = n, marker_comment = [], marker_content = []\<rparr>"

definition sg :: "nat \<Rightarrow> rat \<Rightarrow> rat \<Rightarrow> string \<Rightarrow> segment" where
  "sg i s e x = \<lparr>index = i, start_time = s, end_time = e, duration = e - s,
                  comment = [], content = x\<rparr>"

section \<open>The marker manager\<close>

text \<open>
  \<^verbatim>\<open>MarkerManager\<close> of \<^verbatim>\<open>marker_manager.py\<close>. Every method is a function from the
  state before the call to the status it reports and the state after it. What the method
  reads from the player object (the loaded file, the duration, the playback position, the
  preview time, the three entry fields, the list box selection, the answer to the
  confirmation dialog) is the record \<open>player\<close>, a snapshot taken at the call. The entry
  texts are the strings after \<^verbatim>\<open>strip()\<close>. Redrawing, saving and the change callbacks do not
  touch the marker list or the two stacks and are left out.

  The stacks are Python lists used from their end: \<^verbatim>\<open>append\<close> adds a last element,
  \<^verbatim>\<open>pop()\<close> takes the last one, \<^verbatim>\<open>pop(0)\<close> drops the oldest.

  An operation record holds marker values. The source shares the dictionary between a
  record and the list after a redo of \<^verbatim>\<open>add_marker\<close> and after an undo of
  \<^verbatim>\<open>delete_marker\<close>; that sharing only shows when a later renaming or move is followed by
  another undo, which none of the statements below reaches.
\<close>

definition is_fixed :: "marker \<Rightarrow> bool" where
  "is_fixed m \<longleftrightarrow> name m = ''Marker0'' \<or> name m = ''Marker500''"

definition END_TOLERANCE :: rat where
  "END_TOLERANCE = 1 / 2"

definition max_markers :: nat where
  "max_markers = 100"

definition max_history :: nat where
  "max_history = 50"

datatype operation =
    Move_marker nat rat rat
  | Add_marker nat marker
  | Delete_marker nat marker
  | Delete_markers "marker list"
  | Delete_all_markers "marker list"

record manager =
  markers :: "marker list"
  undo_stack :: "operation list"
  redo_stack :: "operation list"
  selected_marker_index :: "nat option"

record player =
  current_file :: bool
  player_duration :: rat
  current_pos :: rat
  preview_marker_time :: "rat option"
  minute_str :: string
  second_str :: string
  millisecond_str :: string
  curselection :: "nat list"
  askyesno :: bool

text \<open>
  What a call writes to the status label; \<open>Status_unchanged\<close> when it writes nothing,
  \<open>Raised\<close> when an exception leaves the method.
\<close>

datatype status =
    No_file_loaded
  | Maximum_markers_reached
  | Time_exceeds_valid_range
  | Too_close rat
  | Added_marker rat
  | Invalid_time_format
  | Please_select_first
  | Updated_marker rat
  | Please_select_to_delete
  | Selected_protected
  | Deleted_markers nat
  | No_user_markers
  | All_user_markers_deleted
  | No_markers_available
  | No_markers_to_delete
  | Cannot_delete_protected string
  | Deleted_nearest rat
  | Nothing_to_undo
  | Undo_moved rat
  | Undo_removed
  | Undo_restored rat
  | Undo_restored_all nat
  | Nothing_to_redo
  | Redo_moved rat
  | Redo_added
  | Redo_removed
  | Redo_cleared
  | Status_unchanged
  | Raised error

subsection \<open>Names of user markers\<close>

text \<open>\<^verbatim>\<open>str\<close> of a natural number, for \<^verbatim>\<open>f"Marker{i + 1}"\<close>.\<close>

definition digit_char :: "nat \<Rightarrow> char" where
  "digit_char d = ''0123456789'' ! d"

fun str_nat :: "nat \<Rightarrow> string" where
  "str_nat n = (if n < 10 then [digit_char n] else str_nat (n div 10) @ [digit_char (n mod 10)])"

declare str_nat.simps [simp del]

text \<open>
  \<^verbatim>\<open>_renumber_user_markers\<close>: the user markers, sorted by time, are named
  \<^verbatim>\<open>Marker1\<close>, \<^verbatim>\<open>Marker2\<close>, ... in place; the list becomes the user markers followed by the
  fixed ones, sorted by time again.
\<close>

definition renumber_user_markers :: "marker list \<Rightarrow> marker list" where
  "renumber_user_markers ms =
     (let fixed_markers = filter is_fixed ms;
          user_markers = sort_key time (filter (\<lambda>m. \<not> is_fixed m) ms);
          renamed = map (\<lambda>(i, m). m\<lparr>name := ''Marker'' @ str_nat (i + 1)\<rparr>)
                      (enumerate 0 user_markers)
      in sort_key time (renamed @ fixed_markers))"

text \<open>
  The add methods rename the new dictionary in place and then look it up in the list. To
  know its value after the renaming, the same two steps (append and sort, renumber) are run
  on markers that carry a tag, the new one tagged \<open>True\<close>.
\<close>

definition renumber_tagged :: "(bool \<times> marker) list \<Rightarrow> (bool \<times> marker) list" where
  "renumber_tagged ms =
     (let fixed_markers = filter (\<lambda>x. is_fixed (snd x)) ms;
          user_markers = sort_key (\<lambda>x. time (snd x)) (filter (\<lambda>x. \<not> is_fixed (snd x)) ms);
          renamed = map (\<lambda>(i, (b, m)). (b, m\<lparr>name := ''Marker'' @ str_nat (i + 1)\<rparr>))
                      (enumerate 0 user_markers)
      in sort_key (\<lambda>x. time (snd x)) (renamed @ fixed_markers))"

definition renamed_new_marker :: "marker list \<Rightarrow> marker \<Rightarrow> marker" where
  "renamed_new_marker ms new_marker =
     (case find fst (renumber_tagged
              (sort_key (\<lambda>x. time (snd x)) (map (Pair False) ms @ [(True, new_marker)]))) of
        Some (b, m) \<Rightarrow> m
      | None \<Rightarrow> new_marker)"

text \<open>\<^verbatim>\<open>list.index\<close>: the position of the first equal element; \<open>None\<close> where Python raises.\<close>

definition list_index :: "'a list \<Rightarrow> 'a \<Rightarrow> nat option" where
  "list_index xs x = (if x \<in> set xs then Some (length (takeWhile (\<lambda>y. y \<noteq> x) xs)) else None)"

subsection \<open>The undo stack\<close>

definition push_to_undo_stack :: "manager \<Rightarrow> operation \<Rightarrow> manager" where
  "push_to_undo_stack s operation =
     (let u = undo_stack s @ [operation]
      in s\<lparr>undo_stack := (if length u > max_history then tl u else u), redo_stack := []\<rparr>)"

subsection \<open>Reading the time\<close>

text \<open>
  The three entry fields. \<open>py_int\<close> stands for Python's \<^verbatim>\<open>int\<close> on strings, \<open>None\<close> where
  it raises \<^verbatim>\<open>ValueError\<close>; the statements below hold for every such function. The sum is
  taken exactly: the source divides by \<^verbatim>\<open>100.0\<close> and adds in double precision, which rounds,
  and it raises \<^verbatim>\<open>OverflowError\<close> for an entry too large for a float; neither is modelled.
  Whole seconds and the hundredths 0, 25, 50 and 75 are the same in both.
\<close>

definition parse_entry :: "(string \<Rightarrow> int option) \<Rightarrow> string \<Rightarrow> int option" where
  "parse_entry py_int str = (if str = [] then Some 0 else py_int str)"

definition total_seconds :: "(string \<Rightarrow> int option) \<Rightarrow> player \<Rightarrow> rat option" where
  "total_seconds py_int p =
     (case parse_entry py_int (minute_str p) of
        None \<Rightarrow> None
      | Some minutes \<Rightarrow>
         (case parse_entry py_int (second_str p) of
            None \<Rightarrow> None
          | Some seconds \<Rightarrow>
             (case parse_entry py_int (millisecond_str p) of
                None \<Rightarrow> None
              | Some centiseconds \<Rightarrow>
                  Some (of_int (minutes * 60 + seconds) + of_int centiseconds / 100))))"

definition has_meaningful_input :: "player \<Rightarrow> bool" where
  "has_meaningful_input p \<longleftrightarrow>
     (minute_str p \<noteq> [] \<and> minute_str p \<noteq> ''0'')
     \<or> (second_str p \<noteq> [] \<and> second_str p \<noteq> ''0'')
     \<or> (millisecond_str p \<noteq> [] \<and> millisecond_str p \<noteq> ''00'')"

text \<open>The marker time \<^verbatim>\<open>add_marker\<close> settles on before it validates.\<close>

definition requested_time :: "(string \<Rightarrow> int option) \<Rightarrow> player \<Rightarrow> rat" where
  "requested_time py_int p =
     (case preview_marker_time p of
        Some t \<Rightarrow> t
      | None \<Rightarrow>
         (case total_seconds py_int p of
            None \<Rightarrow> current_pos p
          | Some secs \<Rightarrow> if \<not> has_meaningful_input p then current_pos p else secs))"

definition exceeds_valid_range :: "player \<Rightarrow> rat \<Rightarrow> bool" where
  "exceeds_valid_range p t \<longleftrightarrow> player_duration p > 0 \<and> t > player_duration p - END_TOLERANCE"

text \<open>
  The loop that looks for a user marker within one second. The distance is exact here; the
  source subtracts doubles, so at a distance of one second up to rounding (the entries 0.13
  and 1.13, or 0.18 and 1.18) the two tests can differ. The general lemmas on the spacing
  below are statements on exact times; the evaluations use times that doubles represent.
\<close>

definition within_1_second :: "rat \<Rightarrow> marker list \<Rightarrow> marker option" where
  "within_1_second t ms = find (\<lambda>existing_marker. \<not> is_fixed existing_marker
                                  \<and> \<bar>time existing_marker - t\<bar> < 1) ms"

definition new_marker_at :: "rat \<Rightarrow> marker" where
  "new_marker_at t =
     \<lparr>time = (if \<bar>t\<bar> < 1 / 1000 then 1 / 1000 else t), name = ''TempMarker'',
      marker_comment = [], marker_content = []\<rparr>"

subsection \<open>Adding\<close>

text \<open>
  \<^verbatim>\<open>add_marker\<close> has no \<^verbatim>\<open>try\<close>: a \<^verbatim>\<open>ValueError\<close> of \<^verbatim>\<open>list.index\<close> would leave the
  method. In \<^verbatim>\<open>add_marker_at_time\<close> and in \<^verbatim>\<open>update_selected_marker_time\<close> the lookup is
  inside the \<^verbatim>\<open>try\<close> whose handler reports an invalid time format.
\<close>

definition add_marker :: "(string \<Rightarrow> int option) \<Rightarrow> player \<Rightarrow> manager \<Rightarrow> status \<times> manager" where
  "add_marker py_int p s =
     (if \<not> current_file p then (No_file_loaded, s)
      else if length (markers s) \<ge> max_markers then (Maximum_markers_reached, s)
      else let marker_time = requested_time py_int p
        in if exceeds_valid_range p marker_time then (Time_exceeds_valid_range, s)
           else case within_1_second marker_time (markers s) of
                  Some existing_marker \<Rightarrow> (Too_close (time existing_marker), s)
                | None \<Rightarrow>
                   (let new_marker = new_marker_at marker_time;
                        ms = renumber_user_markers (sort_key time (markers s @ [new_marker]));
                        renamed = renamed_new_marker (markers s) new_marker
                    in case list_index ms renamed of
                         None \<Rightarrow> (Raised ValueError, s\<lparr>markers := ms\<rparr>)
                       | Some new_marker_index \<Rightarrow>
                           (Added_marker (time renamed),
                            s\<lparr>markers := ms, selected_marker_index := Some new_marker_index\<rparr>)))"

definition add_marker_at_time ::
  "(string \<Rightarrow> int option) \<Rightarrow> player \<Rightarrow> manager \<Rightarrow> status \<times> manager" where
  "add_marker_at_time py_int p s =
     (if \<not> current_file p then (No_file_loaded, s)
      else if length (markers s) \<ge> max_markers then (Maximum_markers_reached, s)
      else case total_seconds py_int p of
             None \<Rightarrow> (Invalid_time_format, s)
           | Some secs \<Rightarrow>
              if exceeds_valid_range p secs then (Time_exceeds_valid_range, s)
              else case within_1_second secs (markers s) of
                     Some existing_marker \<Rightarrow> (Too_close (time existing_marker), s)
                   | None \<Rightarrow>
                      (let new_marker = new_marker_at secs;
                           ms = renumber_user_markers (sort_key time (markers s @ [new_marker]));
                           renamed = renamed_new_marker (markers s) new_marker
                       in case list_index ms renamed of
                            None \<Rightarrow> (Invalid_time_format, s\<lparr>markers := ms\<rparr>)
                          | Some i \<Rightarrow>
                              (Added_marker secs,
                               push_to_undo_stack
                                 (s\<lparr>markers := ms, selected_marker_index := Some i\<rparr>)
                                 (Add_marker i renamed))))"

subsection \<open>Moving\<close>

definition update_selected_marker_time ::
  "(string \<Rightarrow> int option) \<Rightarrow> player \<Rightarrow> manager \<Rightarrow> status \<times> manager" where
  "update_selected_marker_time py_int p s =
     (if \<not> current_file p then (No_file_loaded, s)
      else case selected_marker_index s of
             None \<Rightarrow> (Please_select_first, s)
           | Some sel \<Rightarrow>
              if sel \<ge> length (markers s) then (Please_select_first, s)
              else case total_seconds py_int p of
                     None \<Rightarrow> (Invalid_time_format, s)
                   | Some secs \<Rightarrow>
                      if exceeds_valid_range p secs then (Time_exceeds_valid_range, s)
                      else case find (\<lambda>existing_marker.
                                  \<not> (existing_marker = markers s ! sel \<or> is_fixed existing_marker)
                                  \<and> \<bar>time existing_marker - secs\<bar> < 1) (markers s) of
                             Some existing_marker \<Rightarrow> (Too_close (time existing_marker), s)
                           | None \<Rightarrow>
                              (let original_time = time (markers s ! sel);
                                   new_time = (if secs < 1 / 1000 then 1 / 1000 else secs);
                                   s1 = push_to_undo_stack s (Move_marker sel original_time new_time);
                                   marker_to_update = (markers s ! sel)\<lparr>time := new_time\<rparr>;
                                   ms = sort_key time ((markers s)[sel := marker_to_update])
                               in case list_index ms marker_to_update of
                                    None \<Rightarrow> (Invalid_time_format, s1\<lparr>markers := ms\<rparr>)
                                  | Some i \<Rightarrow>
                                      (Updated_marker new_time,
                                       s1\<lparr>markers := ms, selected_marker_index := Some i\<rparr>)))"

subsection \<open>Deleting\<close>

text \<open>\<^verbatim>\<open>del self.markers[idx]\<close>, which raises \<^verbatim>\<open>IndexError\<close> out of range.\<close>

definition del_at :: "nat \<Rightarrow> 'a list \<Rightarrow> 'a list" where
  "del_at idx xs = take idx xs @ drop (Suc idx) xs"

fun del_each :: "nat list \<Rightarrow> marker list \<Rightarrow> marker list + marker list" where
  "del_each [] ms = Inr ms"
| "del_each (idx # rest) ms = (if idx < length ms then del_each rest (del_at idx ms) else Inl ms)"

text \<open>
  \<^verbatim>\<open>delete_selected_marker\<close>. The sort by index with \<^verbatim>\<open>reverse=True\<close> is stable, as is
  reversing, sorting and reversing back.
\<close>

definition delete_selected_marker :: "player \<Rightarrow> manager \<Rightarrow> status \<times> manager" where
  "delete_selected_marker p s =
     (if curselection p = [] then (Please_select_to_delete, s)
      else let markers_to_delete =
                 map (\<lambda>idx. (idx, markers s ! idx))
                   (filter (\<lambda>idx. idx < length (markers s) \<and> \<not> is_fixed (markers s ! idx))
                      (curselection p))
        in if markers_to_delete = [] then (Selected_protected, s)
           else if \<not> askyesno p then (Status_unchanged, s)
           else let sorted_to_delete = rev (sort_key fst (rev markers_to_delete));
                    s1 = push_to_undo_stack s (Delete_markers (map snd sorted_to_delete))
             in case del_each (map fst sorted_to_delete) (markers s1) of
                  Inl ms \<Rightarrow> (Raised IndexError, s1\<lparr>markers := ms\<rparr>)
                | Inr ms \<Rightarrow>
                    (Deleted_markers (length markers_to_delete),
                     s1\<lparr>markers := renumber_user_markers ms\<rparr>))"

text \<open>
  The search of \<^verbatim>\<open>delete_nearest_marker\<close>: \<open>None\<close> is the start, with the distance at
  infinity; a marker replaces the candidate when it is strictly nearer.
\<close>

fun nearest_marker :: "rat \<Rightarrow> (nat \<times> marker) list \<Rightarrow> (nat \<times> marker) option \<Rightarrow> (nat \<times> marker) option" where
  "nearest_marker pos [] best = best"
| "nearest_marker pos ((i, m) # rest) best =
     nearest_marker pos rest
       (case best of
          None \<Rightarrow> Some (i, m)
        | Some (bi, bm) \<Rightarrow> if \<bar>time m - pos\<bar> < \<bar>time bm - pos\<bar> then Some (i, m) else best)"

definition delete_nearest_marker :: "player \<Rightarrow> manager \<Rightarrow> status \<times> manager" where
  "delete_nearest_marker p s =
     (if \<not> current_file p \<or> markers s = [] then (No_markers_available, s)
      else case nearest_marker (current_pos p) (enumerate 0 (markers s)) None of
             None \<Rightarrow> (No_markers_to_delete, s)
           | Some (marker_idx, m) \<Rightarrow>
              if is_fixed m then (Cannot_delete_protected (name m), s)
              else if \<not> askyesno p then (Status_unchanged, s)
              else let s1 = push_to_undo_stack s (Delete_marker marker_idx m)
                in (Deleted_nearest (time m), s1\<lparr>markers := del_at marker_idx (markers s1)\<rparr>))"

definition delete_all_markers :: "player \<Rightarrow> manager \<Rightarrow> status \<times> manager" where
  "delete_all_markers p s =
     (if filter (\<lambda>m. \<not> is_fixed m) (markers s) = [] then (No_user_markers, s)
      else if \<not> askyesno p then (Status_unchanged, s)
      else let s1 = push_to_undo_stack s (Delete_all_markers (markers s))
        in (All_user_markers_deleted, s1\<lparr>markers := filter is_fixed (markers s1)\<rparr>))"

subsection \<open>Undo and redo\<close>

text \<open>The first marker that the test of the undo of an add accepts is removed.\<close>

fun remove_first :: "('a \<Rightarrow> bool) \<Rightarrow> 'a list \<Rightarrow> 'a list" where
  "remove_first P [] = []"
| "remove_first P (x # xs) = (if P x then xs else x # remove_first P xs)"

text \<open>
  The branches of \<^verbatim>\<open>undo_action\<close>, after the record has moved to the redo stack. The chain
  of \<^verbatim>\<open>elif\<close> has no case for the action \<^verbatim>\<open>delete_markers\<close> that
  \<^verbatim>\<open>delete_selected_marker\<close> records.
\<close>

fun undo_operation :: "operation \<Rightarrow> manager \<Rightarrow> status \<times> manager" where
  "undo_operation (Move_marker marker_idx from_time to_time) s =
     (if marker_idx < length (markers s)
      then (Undo_moved from_time,
            s\<lparr>markers := sort_key time
                 ((markers s)[marker_idx := (markers s ! marker_idx)\<lparr>time := from_time\<rparr>])\<rparr>)
      else (Status_unchanged, s))"
| "undo_operation (Add_marker idx marker_to_remove) s =
     (Undo_removed,
      s\<lparr>markers := renumber_user_markers (sort_key time
           (remove_first (\<lambda>m. \<bar>time m - time marker_to_remove\<bar> < 1 / 1000
                              \<and> name m = name marker_to_remove) (markers s)))\<rparr>)"
| "undo_operation (Delete_marker idx marker_data) s =
     (Undo_restored (time marker_data),
      s\<lparr>markers := sort_key time (take idx (markers s) @ [marker_data] @ drop idx (markers s))\<rparr>)"
| "undo_operation (Delete_all_markers markers_data) s =
     (Undo_restored_all (length markers_data), s\<lparr>markers := markers_data\<rparr>)"
| "undo_operation (Delete_markers markers_data) s = (Status_unchanged, s)"

definition undo_action :: "manager \<Rightarrow> status \<times> manager" where
  "undo_action s =
     (if undo_stack s = [] then (Nothing_to_undo, s)
      else let operation = last (undo_stack s)
        in undo_operation operation
             (s\<lparr>undo_stack := butlast (undo_stack s), redo_stack := redo_stack s @ [operation]\<rparr>))"

fun redo_operation :: "operation \<Rightarrow> manager \<Rightarrow> status \<times> manager" where
  "redo_operation (Move_marker marker_idx from_time new_time) s =
     (if marker_idx < length (markers s)
      then (Redo_moved new_time,
            s\<lparr>markers := sort_key time
                 ((markers s)[marker_idx := (markers s ! marker_idx)\<lparr>time := new_time\<rparr>])\<rparr>)
      else (Status_unchanged, s))"
| "redo_operation (Add_marker idx marker_data) s =
     (Redo_added,
      s\<lparr>markers := renumber_user_markers (sort_key time (markers s @ [marker_data]))\<rparr>)"
| "redo_operation (Delete_marker marker_idx marker_data) s =
     (if marker_idx < length (markers s)
      then (Redo_removed, s\<lparr>markers := sort_key time (del_at marker_idx (markers s))\<rparr>)
      else (Status_unchanged, s))"
| "redo_operation (Delete_all_markers markers_data) s = (Redo_cleared, s\<lparr>markers := []\<rparr>)"
| "redo_operation (Delete_markers markers_data) s = (Status_unchanged, s)"

definition redo_action :: "manager \<Rightarrow> status \<times> manager" where
  "redo_action s =
     (if redo_stack s = [] then (Nothing_to_redo, s)
      else let operation = last (redo_stack s)
        in redo_operation operation
             (s\<lparr>redo_stack := butlast (redo_stack s), undo_stack := undo_stack s @ [operation]\<rparr>))"

subsection \<open>Sequences of calls\<close>

text \<open>
  One call of a mutating method with the player as it is at that call, or a change of the
  selection from the list box, which the user interface makes between calls.
\<close>

datatype action =
    Add player
  | Add_at_time player
  | Update_time player
  | Delete_selected player
  | Delete_nearest player
  | Delete_all player
  | Select "nat option"

fun step :: "(string \<Rightarrow> int option) \<Rightarrow> manager \<Rightarrow> action \<Rightarrow> manager" where
  "step py_int s (Add p) = snd (add_marker py_int p s)"
| "step py_int s (Add_at_time p) = snd (add_marker_at_time py_int p s)"
| "step py_int s (Update_time p) = snd (update_selected_marker_time py_int p s)"
| "step py_int s (Delete_selected p) = snd (delete_selected_marker p s)"
| "step py_int s (Delete_nearest p) = snd (delete_nearest_marker p s)"
| "step py_int s (Delete_all p) = snd (delete_all_markers p s)"
| "step py_int s (Select i) = s\<lparr>selected_marker_index := i\<rparr>"

fun run :: "(string \<Rightarrow> int option) \<Rightarrow> manager \<Rightarrow> action list \<Rightarrow> manager" where
  "run py_int s [] = s"
| "run py_int s (a # as) = run py_int (step py_int s a) as"

text \<open>The time a call asks for is left as it is: neither clamp of the source changes it.\<close>

fun unclamped :: "(string \<Rightarrow> int option) \<Rightarrow> action \<Rightarrow> bool" where
  "unclamped py_int (Add p) = (\<not> \<bar>requested_time py_int p\<bar> < 1 / 1000)"
| "unclamped py_int (Add_at_time p) =
     (case total_seconds py_int p of None \<Rightarrow> True | Some t \<Rightarrow> \<not> \<bar>t\<bar> < 1 / 1000)"
| "unclamped py_int (Update_time p) =
     (case total_seconds py_int p of None \<Rightarrow> True | Some t \<Rightarrow> \<not> t < 1 / 1000)"
| "unclamped py_int (Delete_selected p) = True"
| "unclamped py_int (Delete_nearest p) = True"
| "unclamped py_int (Delete_all p) = True"
| "unclamped py_int (Select i) = True"

subsection \<open>Properties of a marker list\<close>

definition fixed_present :: "marker list \<Rightarrow> bool" where
  "fixed_present ms \<longleftrightarrow>
     (\<exists>m\<in>set ms. name m = ''Marker0'') \<and> (\<exists>m\<in>set ms. name m = ''Marker500'')"

fun apart :: "rat list \<Rightarrow> bool" where
  "apart [] = True"
| "apart (t # ts) = ((\<forall>u\<in>set ts. 1 \<le> \<bar>t - u\<bar>) \<and> apart ts)"

text \<open>Every two user markers are at least one second apart.\<close>

definition user_markers_apart :: "marker list \<Rightarrow> bool" where
  "user_markers_apart ms = apart (map time (filter (\<lambda>m. \<not> is_fixed m) ms))"

text \<open>
  The spacing as the specification words it: no user marker within one second of any other
  marker, fixed or not.
\<close>

definition no_marker_within_1_second :: "marker list \<Rightarrow> bool" where
  "no_marker_within_1_second ms \<longleftrightarrow>
     (\<forall>i<length ms. \<forall>j<length ms.
        i \<noteq> j \<and> \<not> is_fixed (ms ! i) \<longrightarrow> 1 \<le> \<bar>time (ms ! i) - time (ms ! j)\<bar>)"

definition user_markers :: "marker list \<Rightarrow> marker list" where
  "user_markers ms = filter (\<lambda>m. \<not> is_fixed m) ms"

subsection \<open>Values for the examples\<close>

text \<open>A reader of signed decimal numerals, the part of \<^verbatim>\<open>int\<close> the examples use.\<close>

definition digit_value :: "char \<Rightarrow> nat option" where
  "digit_value c = map_of [(CHR ''0'', 0), (CHR ''1'', 1), (CHR ''2'', 2), (CHR ''3'', 3),
     (CHR ''4'', 4), (CHR ''5'', 5), (CHR ''6'', 6), (CHR ''7'', 7), (CHR ''8'', 8),
     (CHR ''9'', 9)] c"

fun digits_value :: "string \<Rightarrow> nat \<Rightarrow> nat option" where
  "digits_value [] acc = Some acc"
| "digits_value (c # cs) acc =
     (case digit_value c of None \<Rightarrow> None | Some d \<Rightarrow> digits_value cs (10 * acc + d))"

definition decimal_int :: "string \<Rightarrow> int option" where
  "decimal_int str =
     (case str of
        [] \<Rightarrow> None
      | c # cs \<Rightarrow>
          if c = CHR ''-'' then (if cs = [] then None else map_option (\<lambda>n. - int n) (digits_value cs 0))
          else map_option int (digits_value str 0))"

definition idle_player :: player where
  "idle_player = \<lparr>current_file = True, player_duration = 100, current_pos = 0,
     preview_marker_time = None, minute_str = [], second_str = [], millisecond_str = [],
     curselection = [], askyesno = True\<rparr>"

definition fresh_manager :: "marker list \<Rightarrow> manager" where
  "fresh_manager ms = \<lparr>markers = ms, undo_stack = [], redo_stack = [], selected_marker_index = None\<rparr>"

text \<open>The markers the examples start from.\<close>

definition start_manager :: manager where
  "start_manager = fresh_manager [mk 0 ''Marker0'', mk 100 ''Marker500'']"

definition one_marker_manager :: manager where
  "one_marker_manager = fresh_manager [mk 0 ''Marker0'', mk 10 ''Marker1'', mk 100 ''Marker500'']"

definition two_marker_manager :: manager where
  "two_marker_manager =
     \<lparr>markers = [mk 0 ''Marker0'', mk 10 ''Marker1'', mk 20 ''Marker2'', mk 100 ''Marker500''],
      undo_stack = [], redo_stack = [], selected_marker_index = Some 1\<rparr>"

text \<open>Marker0, a hundred user markers two seconds apart, and Marker500.\<close>

definition full_manager :: manager where
  "full_manager = fresh_manager (mk 0 ''Marker0''
     # map (\<lambda>i. mk (2 * of_nat i) (''Marker'' @ str_nat i)) [1..<101] @ [mk 300 ''Marker500''])"

subsection \<open>Notions used in the proofs\<close>

text \<open>The times of the user markers, in list order.\<close>

definition utimes :: "marker list \<Rightarrow> rat list" where
  "utimes ms = map time (filter (\<lambda>m. \<not> is_fixed m) ms)"

text \<open>Both fixed markers are in the list and the user markers are a second apart.\<close>

definition spaced :: "marker list \<Rightarrow> bool" where
  "spaced ms \<longleftrightarrow> fixed_present ms \<and> user_markers_apart ms"

text \<open>
  Tk reports the selection of a list box in ascending order, without repetition; the
  deletion of the selected markers goes through the reversed selection.
\<close>

fun selection_ascending :: "action \<Rightarrow> bool" where
  "selection_ascending (Delete_selected p) = sorted_wrt (<) (curselection p)"
| "selection_ascending (Add p) = True"
| "selection_ascending (Add_at_time p) = True"
| "selection_ascending (Update_time p) = True"
| "selection_ascending (Delete_nearest p) = True"
| "selection_ascending (Delete_all p) = True"
| "selection_ascending (Select i) = True"

section \<open>Segment recomputation: positions and ranges\<close>

lemma segments_from_sorted:
  "sorted (map time ms) \<Longrightarrow>
   \<exists>segs u. segments_from ex ms i used = Inr (segs, u) \<and> length segs = length ms - 1 \<and>
     (\<forall>k<length segs. index (segs ! k) = i + k \<and> start_time (segs ! k) = time (ms ! k)
        \<and> end_time (segs ! k) = time (ms ! Suc k)
        \<and> duration (segs ! k) = time (ms ! Suc k) - time (ms ! k)
        \<and> comment (segs ! k) = marker_comment (ms ! k))"
proof (induction ex ms i used rule: segments_from.induct)
  case (1 ex m1 m2 rest i used)
  let ?r = "preserve_content ex used (time m1) (time m2)"
  from "1.prems" have le: "time m1 \<le> time m2" and srt: "sorted (map time (m2 # rest))"
    by simp_all
  obtain seg where seg: "Segment i (time m1) (time m2) (marker_comment m1) (fst ?r) = Inr seg"
    and segv: "seg = \<lparr>index = i, start_time = time m1, end_time = time m2,
        duration = time m2 - time m1, comment = marker_comment m1, content = fst ?r\<rparr>"
    using le by (simp add: Segment_def)
  from "1.IH"[OF refl seg srt] obtain segs u where
    rec: "segments_from ex (m2 # rest) (Suc i) (snd ?r) = Inr (segs, u)"
    and len: "length segs = length (m2 # rest) - 1"
    and nth: "\<forall>k<length segs. index (segs ! k) = Suc i + k
        \<and> start_time (segs ! k) = time ((m2 # rest) ! k)
        \<and> end_time (segs ! k) = time ((m2 # rest) ! Suc k)
        \<and> duration (segs ! k) = time ((m2 # rest) ! Suc k) - time ((m2 # rest) ! k)
        \<and> comment (segs ! k) = marker_comment ((m2 # rest) ! k)"
    by blast
  have res: "segments_from ex (m1 # m2 # rest) i used = Inr (seg # segs, u)"
    using seg rec by (simp add: Let_def)
  have "\<forall>k<length (seg # segs). index ((seg # segs) ! k) = i + k
        \<and> start_time ((seg # segs) ! k) = time ((m1 # m2 # rest) ! k)
        \<and> end_time ((seg # segs) ! k) = time ((m1 # m2 # rest) ! Suc k)
        \<and> duration ((seg # segs) ! k) = time ((m1 # m2 # rest) ! Suc k) - time ((m1 # m2 # rest) ! k)
        \<and> comment ((seg # segs) ! k) = marker_comment ((m1 # m2 # rest) ! k)"
  proof (intro allI impI)
    fix k assume k: "k < length (seg # segs)"
    show "index ((seg # segs) ! k) = i + k
        \<and> start_time ((seg # segs) ! k) = time ((m1 # m2 # rest) ! k)
        \<and> end_time ((seg # segs) ! k) = time ((m1 # m2 # rest) ! Suc k)
        \<and> duration ((seg # segs) ! k) = time ((m1 # m2 # rest) ! Suc k) - time ((m1 # m2 # rest) ! k)
        \<and> comment ((seg # segs) ! k) = marker_comment ((m1 # m2 # rest) ! k)"
    proof (cases k)
      case 0
      then show ?thesis by (simp add: segv)
    next
      case (Suc k')
      with k have "k' < length segs" by simp
      with nth Suc show ?thesis by simp
    qed
  qed
  with res len show ?case by simp
qed simp_all

lemma calculate_run_sorted:
  assumes "2 \<le> length ms"
  shows "\<exists>segs u. calculate_run ms ex = Inr (segs, u) \<and> length segs = length ms - 1 \<and>
     (\<forall>k<length segs. index (segs ! k) = k
        \<and> start_time (segs ! k) = time (sort_key time ms ! k)
        \<and> end_time (segs ! k) = time (sort_key time ms ! Suc k)
        \<and> duration (segs ! k) = time (sort_key time ms ! Suc k) - time (sort_key time ms ! k)
        \<and> comment (segs ! k) = marker_comment (sort_key time ms ! k))"
proof -
  have "sorted (map time (sort_key time ms))"
    by (rule sorted_sort_key)
  from segments_from_sorted[OF this, of ex 0 "[]"] assms show ?thesis
    by (simp add: calculate_run_def)
qed

lemma calculate_run_short: "length ms < 2 \<Longrightarrow> calculate_run ms ex = Inr ([], [])"
  by (simp add: calculate_run_def)

text \<open>
  Claim C7. A list of \<open>n \<ge> 2\<close> markers gives \<open>n - 1\<close> segments; segment \<open>i\<close> has index
  \<open>i\<close>, runs from the \<open>i\<close>-th to the next marker in ascending time order, and its duration
  is its end minus its start. Fewer than two markers give the empty list, with no error.
\<close>

theorem segment_derivation:
  "(2 \<le> length ms \<longrightarrow>
      (\<exists>segs. calculate_segments ms old_segments = Inr segs \<and> length segs = length ms - 1 \<and>
         (\<forall>i<length ms - 1. index (segs ! i) = i
            \<and> start_time (segs ! i) = time (sort_key time ms ! i)
            \<and> end_time (segs ! i) = time (sort_key time ms ! Suc i)
            \<and> duration (segs ! i) = end_time (segs ! i) - start_time (segs ! i))))
   \<and> (length ms < 2 \<longrightarrow> calculate_segments ms old_segments = Inr [])"
proof (intro conjI impI)
  assume "2 \<le> length ms"
  from calculate_run_sorted[OF this, of old_segments] obtain segs u where
    run: "calculate_run ms old_segments = Inr (segs, u)" and len: "length segs = length ms - 1"
    and nth: "\<forall>k<length segs. index (segs ! k) = k
        \<and> start_time (segs ! k) = time (sort_key time ms ! k)
        \<and> end_time (segs ! k) = time (sort_key time ms ! Suc k)
        \<and> duration (segs ! k) = time (sort_key time ms ! Suc k) - time (sort_key time ms ! k)
        \<and> comment (segs ! k) = marker_comment (sort_key time ms ! k)"
    by blast
  have "calculate_segments ms old_segments = Inr segs"
    using run by (simp add: calculate_segments_def)
  with len nth show "\<exists>segs. calculate_segments ms old_segments = Inr segs \<and> length segs = length ms - 1 \<and>
         (\<forall>i<length ms - 1. index (segs ! i) = i
            \<and> start_time (segs ! i) = time (sort_key time ms ! i)
            \<and> end_time (segs ! i) = time (sort_key time ms ! Suc i)
            \<and> duration (segs ! i) = end_time (segs ! i) - start_time (segs ! i))"
    by simp
next
  assume "length ms < 2"
  then show "calculate_segments ms old_segments = Inr []"
    by (simp add: calculate_segments_def calculate_run_short)
qed

theorem segment_derivation_witness:
  "2 \<le> length [mk 25 ''Marker2'', mk 0 ''Marker0'', mk 40 ''Marker500'', mk 10 ''Marker1'']
   \<and> (\<exists>segs. calculate_segments
           [mk 25 ''Marker2'', mk 0 ''Marker0'', mk 40 ''Marker500'', mk 10 ''Marker1''] [] = Inr segs
         \<and> length segs = 3
         \<and> map (\<lambda>s. (index s, start_time s, end_time s, duration s)) segs
             = [(0, 0, 10, 10), (1, 10, 25, 15), (2, 25, 40, 15)])
   \<and> length [mk 25 ''Marker2''] < 2
   \<and> calculate_segments [mk 25 ''Marker2''] [] = Inr []"
proof -
  let ?ms = "[mk 25 ''Marker2'', mk 0 ''Marker0'', mk 40 ''Marker500'', mk 10 ''Marker1'']"
  have len: "2 \<le> length ?ms" by simp
  from segment_derivation[of ?ms "[]"] len obtain segs where
    r: "calculate_segments ?ms [] = Inr segs" and l: "length segs = 3"
    and n: "\<forall>i<3. index (segs ! i) = i
            \<and> start_time (segs ! i) = time (sort_key time ?ms ! i)
            \<and> end_time (segs ! i) = time (sort_key time ?ms ! Suc i)
            \<and> duration (segs ! i) = end_time (segs ! i) - start_time (segs ! i)"
    by auto
  have srt: "sort_key time ?ms = [mk 0 ''Marker0'', mk 10 ''Marker1'', mk 25 ''Marker2'', mk 40 ''Marker500'']"
    by (simp add: mk_def)
  from n have "index (segs ! 0) = 0 \<and> index (segs ! 1) = 1 \<and> index (segs ! 2) = 2
     \<and> start_time (segs ! 0) = 0 \<and> start_time (segs ! 1) = 10 \<and> start_time (segs ! 2) = 25
     \<and> end_time (segs ! 0) = 10 \<and> end_time (segs ! 1) = 25 \<and> end_time (segs ! 2) = 40
     \<and> duration (segs ! 0) = 10 \<and> duration (segs ! 1) = 15 \<and> duration (segs ! 2) = 15"
    unfolding srt by (simp add: mk_def)
  moreover from l obtain s0 s1 s2 where "segs = [s0, s1, s2]"
    by (cases segs; cases "tl segs"; cases "tl (tl segs)") auto
  ultimately have "map (\<lambda>s. (index s, start_time s, end_time s, duration s)) segs
             = [(0, 0, 10, 10), (1, 10, 25, 15), (2, 25, 40, 15)]"
    by simp
  moreover from segment_derivation[of "[mk 25 ''Marker2'']" "[]"]
  have "calculate_segments [mk 25 ''Marker2''] [] = Inr []" by simp
  ultimately show ?thesis using r l by simp
qed

text \<open>
  Claim C10. The constructor raises exactly when the start lies after the end, and the
  recomputation never reaches that branch: it returns a list in which every segment has its
  start at or before its end, hence a duration that is not negative.
\<close>

theorem segment_start_before_end:
  "((\<exists>e. Segment i s t c x = Inl e) \<longleftrightarrow> s > t)
   \<and> (\<exists>segs. calculate_segments ms old_segments = Inr segs
         \<and> (\<forall>g\<in>set segs. start_time g \<le> end_time g \<and> 0 \<le> duration g))"
proof (intro conjI)
  show "(\<exists>e. Segment i s t c x = Inl e) \<longleftrightarrow> s > t"
    by (simp add: Segment_def)
next
  show "\<exists>segs. calculate_segments ms old_segments = Inr segs
         \<and> (\<forall>g\<in>set segs. start_time g \<le> end_time g \<and> 0 \<le> duration g)"
  proof (cases "2 \<le> length ms")
    case False
    then show ?thesis by (simp add: calculate_segments_def calculate_run_def)
  next
    case True
    from calculate_run_sorted[OF this, of old_segments] obtain segs u where
      run: "calculate_run ms old_segments = Inr (segs, u)" and len: "length segs = length ms - 1"
      and nth: "\<forall>k<length segs. index (segs ! k) = k
        \<and> start_time (segs ! k) = time (sort_key time ms ! k)
        \<and> end_time (segs ! k) = time (sort_key time ms ! Suc k)
        \<and> duration (segs ! k) = time (sort_key time ms ! Suc k) - time (sort_key time ms ! k)
        \<and> comment (segs ! k) = marker_comment (sort_key time ms ! k)"
      by blast
    have srt: "sorted (map time (sort_key time ms))" by (rule sorted_sort_key)
    have "start_time g \<le> end_time g \<and> 0 \<le> duration g" if "g \<in> set segs" for g
    proof -
      from that obtain k where k: "k < length segs" and g: "g = segs ! k"
        by (auto simp: in_set_conv_nth)
      from k len have k2: "Suc k < length (map time (sort_key time ms))" by simp
      from sorted_nth_mono[OF srt _ k2, of k]
      have "time (sort_key time ms ! k) \<le> time (sort_key time ms ! Suc k)"
        using k2 by simp
      with nth k g show ?thesis by simp
    qed
    with run show ?thesis by (auto simp: calculate_segments_def)
  qed
qed

theorem segment_start_before_end_witness:
  "(\<exists>e. Segment 0 40 25 [] [] = Inl e) \<and> \<not> (\<exists>e. Segment 0 25 25 [] [] = Inl e)
   \<and> (\<exists>segs. calculate_segments [mk 40 ''Marker500'', mk 25 ''Marker1'', mk 0 ''Marker0''] [] = Inr segs
         \<and> map start_time segs = [0, 25] \<and> map end_time segs = [25, 40]
         \<and> (\<forall>g\<in>set segs. start_time g \<le> end_time g \<and> 0 \<le> duration g))"
  using segment_start_before_end[of 0 40 25 "[]" "[]" "[mk 40 ''Marker500'', mk 25 ''Marker1'', mk 0 ''Marker0'']" "[]"]
    segment_start_before_end[of 0 25 25 "[]" "[]" "[]" "[]"]
  by (simp add: calculate_segments_def calculate_run_def preserve_content_def Segment_def mk_def)

section \<open>The segment at a time\<close>

lemma max_by_index_greatest:
  "max_by_index b ss \<in> set (b # ss) \<and> (\<forall>x\<in>set (b # ss). index x \<le> index (max_by_index b ss))"
proof (induction ss arbitrary: b)
  case Nil
  show ?case by simp
next
  case (Cons s ss)
  from Cons.IH[of "if index b < index s then s else b"] show ?case
    by (auto split: if_splits)
qed

text \<open>
  Claim C8. When some segment contains the time (closed interval), \<^verbatim>\<open>get_segment_at_time\<close>
  returns a segment that contains it and whose index no other such segment exceeds, so a
  shared boundary goes to the later segment; when none contains it the result is \<open>None\<close>.
\<close>

theorem segment_at_time_latest:
  "((\<exists>s\<in>set segments. contains_time s t) \<longrightarrow>
      (\<exists>r. get_segment_at_time segments t = Some r \<and> r \<in> set segments \<and> contains_time r t
         \<and> (\<forall>s\<in>set segments. contains_time s t \<longrightarrow> index s \<le> index r)))
   \<and> ((\<forall>s\<in>set segments. \<not> contains_time s t) \<longrightarrow> get_segment_at_time segments t = None)"
proof (intro conjI impI)
  assume ex: "\<exists>s\<in>set segments. contains_time s t"
  let ?c = "filter (\<lambda>s. contains_time s t) segments"
  from ex have "?c \<noteq> []" by (simp add: filter_empty_conv)
  then obtain s ss where c: "?c = s # ss" by (cases ?c) auto
  let ?r = "max_by_index s ss"
  from max_by_index_greatest[of s ss] c
  have mem: "?r \<in> set ?c" and top: "\<forall>x\<in>set ?c. index x \<le> index ?r"
    by simp_all
  have "get_segment_at_time segments t = Some ?r"
    using c by (simp add: get_segment_at_time_def)
  with mem top show "\<exists>r. get_segment_at_time segments t = Some r \<and> r \<in> set segments \<and> contains_time r t
         \<and> (\<forall>s\<in>set segments. contains_time s t \<longrightarrow> index s \<le> index r)"
    by auto
next
  assume "\<forall>s\<in>set segments. \<not> contains_time s t"
  then have "filter (\<lambda>s. contains_time s t) segments = []"
    by (simp add: filter_empty_conv)
  then show "get_segment_at_time segments t = None"
    by (simp add: get_segment_at_time_def)
qed

theorem segment_at_time_latest_witness:
  "(\<exists>s\<in>set [sg 0 10 25 ''A'', sg 1 25 40 ''B'']. contains_time s 25)
   \<and> get_segment_at_time [sg 0 10 25 ''A'', sg 1 25 40 ''B''] 25 = Some (sg 1 25 40 ''B'')
   \<and> \<not> contains_time (sg 0 10 25 ''A'') 41 \<and> \<not> contains_time (sg 1 25 40 ''B'') 41
   \<and> get_segment_at_time [sg 0 10 25 ''A'', sg 1 25 40 ''B''] 41 = None"
proof -
  let ?segs = "[sg 0 10 25 ''A'', sg 1 25 40 ''B'']"
  have h: "\<exists>s\<in>set ?segs. contains_time s 25"
    by (simp add: contains_time_def sg_def)
  with segment_at_time_latest[of ?segs 25] obtain r where
    r: "get_segment_at_time ?segs 25 = Some r" "r \<in> set ?segs" "contains_time r 25"
       "\<forall>s\<in>set ?segs. contains_time s 25 \<longrightarrow> index s \<le> index r"
    by blast
  from r(4) have "index (sg 1 25 40 ''B'') \<le> index r"
    by (simp add: contains_time_def sg_def)
  with r(2) have "r = sg 1 25 40 ''B''"
    by (auto simp: sg_def)
  moreover have n: "\<forall>s\<in>set ?segs. \<not> contains_time s 41"
    by (simp add: contains_time_def sg_def)
  moreover from n segment_at_time_latest[of ?segs 41]
  have "get_segment_at_time ?segs 41 = None" by blast
  ultimately show ?thesis using h r(1) by simp
qed

section \<open>Content migration\<close>

lemma exact_or_split_none:
  "\<forall>(j, s)\<in>set xs. j \<in> set used \<or> \<not> matches s a b \<Longrightarrow> exact_or_split xs used a b = ([], used)"
  by (induction xs) (auto simp: matches_def)

lemma exact_or_split_first:
  "\<forall>(j, s)\<in>set pre. j \<in> set used \<or> \<not> matches s a b \<Longrightarrow> j0 \<notin> set used \<Longrightarrow> matches s0 a b \<Longrightarrow>
   exact_or_split (pre @ (j0, s0) # post) used a b = (content s0, used @ [j0])"
  by (induction pre) (auto simp: matches_def)

lemma exact_or_split_used:
  "j \<in> set (snd (exact_or_split xs used a b)) \<Longrightarrow>
   j \<in> set used \<or> (\<exists>s. (j, s) \<in> set xs \<and> matches s a b)"
  by (induction xs) (auto simp: matches_def split: if_splits)

lemma exact_or_split_distinct:
  "distinct used \<Longrightarrow> distinct (snd (exact_or_split xs used a b))"
  by (induction xs) auto

lemma merge_partner_Some:
  "merge_partner xs j s used b = Some (c, used') \<Longrightarrow>
   \<exists>k s2. (k, s2) \<in> set xs \<and> k \<notin> set used \<and> k \<noteq> j \<and> end_time s2 = b
      \<and> end_time s = start_time s2 \<and> c = merged_content s s2 \<and> used' = used @ [j, k]"
proof (induction xs)
  case Nil
  then show ?case by simp
next
  case (Cons x xs)
  obtain k0 s0 where x: "x = (k0, s0)" by (cases x)
  show ?case
  proof (cases "k0 \<notin> set used \<and> k0 \<noteq> j \<and> end_time s0 = b \<and> end_time s = start_time s0")
    case True
    with Cons.prems x have "c = merged_content s s0 \<and> used' = used @ [j, k0]"
      by auto
    with True x show ?thesis by auto
  next
    case False
    with Cons.prems x have "merge_partner xs j s used b = Some (c, used')"
      by (auto split: if_splits)
    from Cons.IH[OF this] show ?thesis by auto
  qed
qed

lemma merge_partner_none:
  "\<forall>(k, s2)\<in>set xs. k \<in> set used \<or> k = j \<or> \<not> (end_time s2 = b \<and> end_time s = start_time s2) \<Longrightarrow>
   merge_partner xs j s used b = None"
  by (induction xs) auto

lemma merge_partner_first:
  "\<forall>(k, s2)\<in>set pre. k \<in> set used \<or> k = j \<or> \<not> (end_time s2 = b \<and> end_time s = start_time s2) \<Longrightarrow>
   k0 \<notin> set used \<Longrightarrow> k0 \<noteq> j \<Longrightarrow> end_time s0 = b \<Longrightarrow> end_time s = start_time s0 \<Longrightarrow>
   merge_partner (pre @ (k0, s0) # post) j s used b = Some (merged_content s s0, used @ [j, k0])"
  by (induction pre) auto

lemma merge_pass_none:
  "\<forall>(j, s)\<in>set xs. j \<in> set used \<or> start_time s \<noteq> a \<or> merge_partner ex j s used b = None \<Longrightarrow>
   merge_pass ex xs c used a b = (c, used)"
  by (induction xs) auto

lemma merge_pass_first:
  "\<forall>(j, s)\<in>set pre. j \<in> set used \<or> start_time s \<noteq> a \<or> merge_partner ex j s used b = None \<Longrightarrow>
   j0 \<notin> set used \<Longrightarrow> start_time s0 = a \<Longrightarrow> merge_partner ex j0 s0 used b = Some (c', used') \<Longrightarrow>
   \<forall>(j, s)\<in>set post. j \<in> set used' \<or> start_time s \<noteq> a \<Longrightarrow>
   merge_pass ex (pre @ (j0, s0) # post) c used a b = (c', used')"
proof (induction pre)
  case Nil
  from Nil.prems(5) have "merge_pass ex post c' used' a b = (c', used')"
    by (intro merge_pass_none) auto
  with Nil.prems show ?case by simp
next
  case (Cons x pre)
  then show ?case by (cases x) auto
qed

lemma merge_pass_used:
  "i \<in> set (snd (merge_pass ex xs c used a b)) \<Longrightarrow>
   i \<in> set used
   \<or> (\<exists>s k s2. (i, s) \<in> set xs \<and> (k, s2) \<in> set ex \<and> start_time s = a \<and> end_time s2 = b
         \<and> end_time s = start_time s2)
   \<or> (\<exists>j s s2. (j, s) \<in> set xs \<and> (i, s2) \<in> set ex \<and> start_time s = a \<and> end_time s2 = b
         \<and> end_time s = start_time s2)"
proof (induction xs arbitrary: c used)
  case Nil
  then show ?case by simp
next
  case (Cons x xs)
  obtain j s where x: "x = (j, s)" by (cases x)
  show ?case
  proof (cases "j \<notin> set used \<and> start_time s = a \<and> merge_partner ex j s used b \<noteq> None")
    case False
    with Cons.prems x have "i \<in> set (snd (merge_pass ex xs c used a b))"
      by (cases "merge_partner ex j s used b") (auto split: if_splits)
    from Cons.IH[OF this] show ?thesis by auto
  next
    case True
    then obtain c' used' where mp: "merge_partner ex j s used b = Some (c', used')"
      by auto
    from merge_partner_Some[OF mp] obtain k s2 where
      k: "(k, s2) \<in> set ex" "end_time s2 = b" "end_time s = start_time s2" "used' = used @ [j, k]"
      by blast
    from Cons.prems x True mp have "i \<in> set (snd (merge_pass ex xs c' used' a b))"
      by simp
    from Cons.IH[OF this] k True x show ?thesis
      by auto
  qed
qed

lemma merge_pass_distinct:
  "distinct used \<Longrightarrow> distinct (snd (merge_pass ex xs c used a b))"
proof (induction xs arbitrary: c used)
  case Nil
  then show ?case by simp
next
  case (Cons x xs)
  obtain j s where x: "x = (j, s)" by (cases x)
  show ?case
  proof (cases "j \<notin> set used \<and> start_time s = a \<and> merge_partner ex j s used b \<noteq> None")
    case False
    with Cons x show ?thesis
      by (cases "merge_partner ex j s used b") auto
  next
    case True
    then obtain c' used' where mp: "merge_partner ex j s used b = Some (c', used')"
      by auto
    from merge_partner_Some[OF mp] True Cons.prems have "distinct used'"
      by auto
    from Cons.IH[OF this] True mp x show ?thesis by simp
  qed
qed

lemma preserve_content_distinct:
  "distinct used \<Longrightarrow> distinct (snd (preserve_content ex used a b))"
  unfolding preserve_content_def
  by (cases "exact_or_split (enumerate 0 ex) used a b")
     (use exact_or_split_distinct[of used "enumerate 0 ex" a b] merge_pass_distinct in auto)

lemma segments_from_distinct:
  "distinct used \<Longrightarrow> segments_from ex ms i used = Inr (segs, u) \<Longrightarrow> distinct u"
proof (induction ex ms i used arbitrary: segs u rule: segments_from.induct)
  case (1 ex m1 m2 rest i used)
  let ?r = "preserve_content ex used (time m1) (time m2)"
  from "1.prems"(2) obtain seg segs' where
    seg: "Segment i (time m1) (time m2) (marker_comment m1) (fst ?r) = Inr seg"
    and rec: "segments_from ex (m2 # rest) (Suc i) (snd ?r) = Inr (segs', u)"
    by (auto simp: Let_def split: sum.splits)
  from preserve_content_distinct[OF "1.prems"(1)] have "distinct (snd ?r)" .
  from "1.IH"[OF refl seg this rec] show ?case .
qed simp_all

lemma used_old_segments_distinct: "distinct (used_old_segments ms ex)"
proof (cases "calculate_run ms ex")
  case (Inl e)
  then show ?thesis by (simp add: used_old_segments_def)
next
  case (Inr r)
  obtain segs u where r: "r = (segs, u)" by (cases r)
  from Inr r have "u = [] \<or> segments_from ex (sort_key time ms) 0 [] = Inr (segs, u)"
    by (auto simp: calculate_run_def Let_def split: if_splits)
  then have "distinct u"
    using segments_from_distinct[of "[]" ex "sort_key time ms" 0 segs u] by auto
  with Inr r show ?thesis by (simp add: used_old_segments_def)
qed

lemma enumerate_split:
  assumes "J < length ex"
  shows "enumerate 0 ex = enumerate 0 (take J ex) @ (J, ex ! J) # enumerate (Suc J) (drop (Suc J) ex)"
proof -
  have "enumerate 0 ex = enumerate 0 (take J ex @ ex ! J # drop (Suc J) ex)"
    using id_take_nth_drop[OF assms] by simp
  also have "\<dots> = enumerate 0 (take J ex) @ enumerate J (ex ! J # drop (Suc J) ex)"
    using assms by (simp add: enumerate_append_eq min_def)
  finally show ?thesis by simp
qed

lemma in_enumerate_take: "(j, s) \<in> set (enumerate 0 (take J ex)) \<Longrightarrow> j < J \<and> j < length ex \<and> s = ex ! j"
  by (auto simp: in_set_enumerate_eq)

lemma in_enumerate_drop:
  "(j, s) \<in> set (enumerate (Suc J) (drop (Suc J) ex)) \<Longrightarrow> J < j \<and> j < length ex \<and> s = ex ! j"
  by (auto simp: in_set_enumerate_eq)

lemma in_enumerate_all: "(j, s) \<in> set (enumerate 0 ex) \<longleftrightarrow> j < length ex \<and> s = ex ! j"
  by (auto simp: in_set_enumerate_eq)

lemma later_segment_kept:
  assumes K: "K < length ex" and sK: "a \<le> start_time (ex ! K)" and eK: "a < end_time (ex ! K)"
    and wf: "\<forall>j<length ex. start_time (ex ! j) \<le> end_time (ex ! j)"
    and se: "s \<le> e" and ea: "e \<le> a" and unused: "K \<notin> set used"
  shows "K \<notin> set (snd (preserve_content ex used s e))"
proof
  assume in_used: "K \<in> set (snd (preserve_content ex used s e))"
  obtain c1 u1 where eos: "exact_or_split (enumerate 0 ex) used s e = (c1, u1)"
    by (cases "exact_or_split (enumerate 0 ex) used s e")
  have "K \<notin> set u1"
  proof
    assume "K \<in> set u1"
    with eos exact_or_split_used[of K "enumerate 0 ex" used s e] unused
    have "matches (ex ! K) s e" by (auto simp: in_enumerate_all)
    with sK eK se ea show False by (auto simp: matches_def)
  qed
  moreover from in_used eos have "K \<in> set (snd (merge_pass (enumerate 0 ex) (enumerate 0 ex) c1 u1 s e))"
    by (simp add: preserve_content_def)
  ultimately have
    "(\<exists>k<length ex. end_time (ex ! k) = e \<and> end_time (ex ! K) = start_time (ex ! k))
     \<or> end_time (ex ! K) = e"
    using merge_pass_used[of K "enumerate 0 ex" "enumerate 0 ex" c1 u1 s e]
    by (auto simp: in_enumerate_all)
  then show False
  proof
    assume "\<exists>k<length ex. end_time (ex ! k) = e \<and> end_time (ex ! K) = start_time (ex ! k)"
    then obtain k where "k < length ex" "end_time (ex ! k) = e" "end_time (ex ! K) = start_time (ex ! k)"
      by auto
    with wf have "end_time (ex ! K) \<le> e" by auto
    with eK ea show False by simp
  next
    assume "end_time (ex ! K) = e"
    with eK ea show False by simp
  qed
qed

lemma split_left:
  assumes J: "J < length ex" and sJ: "start_time (ex ! J) = a" and eJ: "end_time (ex ! J) = b"
    and at: "a < t" and tb: "t < b"
    and before: "\<forall>j<J. end_time (ex ! j) \<le> a"
    and after: "\<forall>j<length ex. J < j \<longrightarrow> b \<le> start_time (ex ! j)"
    and wf: "\<forall>j<length ex. start_time (ex ! j) \<le> end_time (ex ! j)"
    and unused: "J \<notin> set used"
  shows "preserve_content ex used a t = (content (ex ! J), used @ [J])"
proof -
  have "\<not> matches s a t" if "(j, s) \<in> set (enumerate 0 (take J ex))" for j s
  proof
    assume "matches s a t"
    with that have "j < J" "s = ex ! j" "t \<le> end_time s"
      by (auto dest: in_enumerate_take simp: matches_def)
    with before at show False by auto
  qed
  then have pre: "\<forall>(j, s)\<in>set (enumerate 0 (take J ex)). j \<in> set used \<or> \<not> matches s a t"
    by auto
  have m: "matches (ex ! J) a t"
    using sJ eJ at tb by (simp add: matches_def)
  have "exact_or_split (enumerate 0 ex) used a t = (content (ex ! J), used @ [J])"
    unfolding enumerate_split[OF J] by (rule exact_or_split_first[OF pre unused m])
  moreover have "merge_pass (enumerate 0 ex) (enumerate 0 ex) (content (ex ! J)) (used @ [J]) a t
      = (content (ex ! J), used @ [J])"
  proof -
    have noend: "end_time s2 \<noteq> t" if "(k, s2) \<in> set (enumerate 0 ex)" for k s2
    proof
      assume "end_time s2 = t"
      with that have k: "k < length ex" "end_time (ex ! k) = t" by (auto simp: in_enumerate_all)
      consider "k < J" | "k = J" | "J < k" by linarith
      then show False
      proof cases
        case 1 with before k at show False by auto
      next
        case 2 with k eJ tb show False by auto
      next
        case 3
        with after k have "b \<le> start_time (ex ! k)" by auto
        with wf k tb show False by force
      qed
    qed
    have "merge_partner (enumerate 0 ex) j s (used @ [J]) t = None" for j s
      by (rule merge_partner_none) (auto dest: noend)
    then show ?thesis
      by (intro merge_pass_none) auto
  qed
  ultimately show ?thesis by (simp add: preserve_content_def)
qed

lemma split_right:
  assumes J: "J < length ex" and sJ: "start_time (ex ! J) = a" and eJ: "end_time (ex ! J) = b"
    and at: "a < t" and tb: "t < b"
    and before: "\<forall>j<J. end_time (ex ! j) \<le> a"
    and after: "\<forall>j<length ex. J < j \<longrightarrow> b \<le> start_time (ex ! j)"
    and wf: "\<forall>j<length ex. start_time (ex ! j) \<le> end_time (ex ! j)"
  shows "preserve_content ex used t b = ([], used)"
proof -
  have nostart: "start_time s \<noteq> t" if "(j, s) \<in> set (enumerate 0 ex)" for j s
  proof
    assume st: "start_time s = t"
    from that have j: "j < length ex" "s = ex ! j" by (auto simp: in_enumerate_all)
    consider "j < J" | "j = J" | "J < j" by linarith
    then show False
    proof cases
      case 1
      with before have "end_time (ex ! j) \<le> a" by auto
      with wf j st at show False by force
    next
      case 2 with j sJ st at show False by auto
    next
      case 3 with after j st tb show False by force
    qed
  qed
  have "exact_or_split (enumerate 0 ex) used t b = ([], used)"
    by (rule exact_or_split_none) (auto simp: matches_def dest: nostart)
  moreover have "merge_pass (enumerate 0 ex) (enumerate 0 ex) [] used t b = ([], used)"
    by (rule merge_pass_none) (auto dest: nostart)
  ultimately show ?thesis by (simp add: preserve_content_def)
qed

lemma split_migration:
  assumes J: "J < length ex" and sJ: "start_time (ex ! J) = a" and eJ: "end_time (ex ! J) = b"
    and at: "a < t" and tb: "t < b"
    and before: "\<forall>j<J. end_time (ex ! j) \<le> a"
    and after: "\<forall>j<length ex. J < j \<longrightarrow> b \<le> start_time (ex ! j)"
    and wf: "\<forall>j<length ex. start_time (ex ! j) \<le> end_time (ex ! j)"
  shows "map time ms = ts1 @ [a, t, b] @ ts2 \<Longrightarrow> sorted (map time ms) \<Longrightarrow> J \<notin> set used \<Longrightarrow>
     \<exists>segs u. segments_from ex ms i used = Inr (segs, u)
        \<and> content (segs ! length ts1) = content (ex ! J)
        \<and> content (segs ! Suc (length ts1)) = []"
proof (induction ts1 arbitrary: ms i used)
  case Nil
  then obtain ma mt mb rest where ms: "ms = ma # mt # mb # rest"
    and tm: "time ma = a" "time mt = t" "time mb = b"
    by (auto simp: map_eq_Cons_conv)
  from Nil.prems(2) ms have srt: "sorted (map time (mb # rest))" by simp
  from segments_from_sorted[OF srt, of ex "Suc (Suc i)" "used @ [J]"] obtain segs u where
    rest: "segments_from ex (mb # rest) (Suc (Suc i)) (used @ [J]) = Inr (segs, u)" by blast
  have l: "preserve_content ex used a t = (content (ex ! J), used @ [J])"
    by (rule split_left[OF J sJ eJ at tb before after wf Nil.prems(3)])
  have r: "preserve_content ex (used @ [J]) t b = ([], used @ [J])"
    by (rule split_right[OF J sJ eJ at tb before after wf])
  from at tb l r rest ms tm show ?case
    by (simp add: Segment_def)
next
  case (Cons x ts1)
  then obtain m ms' where ms: "ms = m # ms'" and tm: "time m = x"
    and ms': "map time ms' = ts1 @ [a, t, b] @ ts2"
    by (auto simp: map_eq_Cons_conv)
  from ms' obtain m2 rest where ms2: "ms' = m2 # rest"
    by (cases ms') auto
  from Cons.prems(2) ms ms2 have le: "time m \<le> time m2" and srt: "sorted (map time ms')"
    by simp_all
  have m2a: "time m2 \<le> a"
  proof (cases ts1)
    case Nil with ms' ms2 show ?thesis by simp
  next
    case (Cons y ys)
    with ms' ms2 have "time m2 = y" by simp
    moreover from srt ms' Cons have "y \<le> a" by (simp add: sorted_append)
    ultimately show ?thesis by simp
  qed
  have keep: "J \<notin> set (snd (preserve_content ex used (time m) (time m2)))"
    using at tb sJ eJ by (intro later_segment_kept[OF J _ _ wf le m2a Cons.prems(3)]) auto
  from Cons.IH[OF ms' srt keep, of "Suc i"] obtain segs u where
    rec: "segments_from ex ms' (Suc i) (snd (preserve_content ex used (time m) (time m2))) = Inr (segs, u)"
    and c: "content (segs ! length ts1) = content (ex ! J)" "content (segs ! Suc (length ts1)) = []"
    by blast
  from le rec c ms ms2 show ?case
    by (simp add: Segment_def Let_def)
qed

lemma merge_at:
  assumes J: "Suc J < length ex"
    and sJ: "start_time (ex ! J) = a" and eJ: "end_time (ex ! J) = t"
    and sJ': "start_time (ex ! Suc J) = t" and eJ': "end_time (ex ! Suc J) = b"
    and at: "a < t" and tb: "t < b"
    and before: "\<forall>j<J. end_time (ex ! j) \<le> a"
    and after: "\<forall>j<length ex. Suc J < j \<longrightarrow> b \<le> start_time (ex ! j)"
    and wf: "\<forall>j<length ex. start_time (ex ! j) \<le> end_time (ex ! j)"
    and unused: "J \<notin> set used" "Suc J \<notin> set used"
  shows "preserve_content ex used a b = (merged_content (ex ! J) (ex ! Suc J), used @ [J, Suc J])"
proof -
  let ?all = "enumerate 0 ex"
  have J0: "J < length ex" using J by simp
  have nomatch: "\<not> matches s a b" if "(j, s) \<in> set ?all" for j s
  proof
    assume "matches s a b"
    with that have j: "j < length ex" "start_time (ex ! j) = a" "b \<le> end_time (ex ! j)"
      by (auto simp: in_enumerate_all matches_def)
    consider "j < J" | "j = J" | "j = Suc J" | "Suc J < j" by linarith
    then show False
    proof cases
      case 1 with before j at tb show False by force
    next
      case 2 with j eJ tb show False by simp
    next
      case 3 with j sJ' at show False by simp
    next
      case 4 with after j at tb show False by force
    qed
  qed
  have eos: "exact_or_split ?all used a b = ([], used)"
    by (rule exact_or_split_none) (auto dest: nomatch)
  have partner_end: "k = Suc J \<or> (Suc J < k \<and> b \<le> start_time (ex ! k))"
    if "k < length ex" "end_time (ex ! k) = b" for k
  proof -
    consider "k < J" | "k = J" | "k = Suc J" | "Suc J < k" by linarith
    then show ?thesis
    proof cases
      case 1 with before that at tb show ?thesis by force
    next
      case 2 with that eJ tb show ?thesis by simp
    next
      case 3 then show ?thesis by simp
    next
      case 4 with after that show ?thesis by simp
    qed
  qed
  have pre: "merge_partner ?all j s used b = None" if "(j, s) \<in> set (enumerate 0 (take J ex))" for j s
  proof -
    from that have j: "j < J" "s = ex ! j" by (auto dest: in_enumerate_take)
    with before have sa: "end_time s \<le> a" by simp
    have "\<not> (end_time s2 = b \<and> end_time s = start_time s2)" if "(k, s2) \<in> set ?all" for k s2
    proof
      assume e: "end_time s2 = b \<and> end_time s = start_time s2"
      with that have k: "k < length ex" "end_time (ex ! k) = b" "s2 = ex ! k"
        by (auto simp: in_enumerate_all)
      with partner_end[of k] sJ' e have "t \<le> end_time s"
        using tb by auto
      with sa at show False by simp
    qed
    then show ?thesis
      by (intro merge_partner_none) auto
  qed
  have mid: "merge_partner ?all J (ex ! J) used b
      = Some (merged_content (ex ! J) (ex ! Suc J), used @ [J, Suc J])"
  proof -
    have "k = J" if "(k, s2) \<in> set (enumerate 0 (take (Suc J) ex))" "end_time s2 = b" for k s2
    proof (rule ccontr)
      assume "k \<noteq> J"
      with that have "k < J" "s2 = ex ! k" "end_time (ex ! k) = b"
        using in_enumerate_take[of k s2 "Suc J" ex] by auto
      with before at tb show False by force
    qed
    then have "\<forall>(k, s2)\<in>set (enumerate 0 (take (Suc J) ex)).
        k \<in> set used \<or> k = J \<or> \<not> (end_time s2 = b \<and> end_time (ex ! J) = start_time s2)"
      by auto
    then have "merge_partner (enumerate 0 (take (Suc J) ex) @ (Suc J, ex ! Suc J)
                  # enumerate (Suc (Suc J)) (drop (Suc (Suc J)) ex)) J (ex ! J) used b
        = Some (merged_content (ex ! J) (ex ! Suc J), used @ [J, Suc J])"
      using unused(2) eJ' eJ sJ' by (intro merge_partner_first) auto
    then show ?thesis
      by (simp only: enumerate_split[OF J, symmetric])
  qed
  have "j \<in> set (used @ [J, Suc J]) \<or> start_time s \<noteq> a"
    if "(j, s) \<in> set (enumerate (Suc J) (drop (Suc J) ex))" for j s
  proof (cases "j = Suc J")
    case True
    then show ?thesis by simp
  next
    case False
    with that have "Suc J < j" "j < length ex" "s = ex ! j" by (auto dest: in_enumerate_drop)
    with after have "b \<le> start_time s" by simp
    with at tb show ?thesis by simp
  qed
  then have post: "\<forall>(j, s)\<in>set (enumerate (Suc J) (drop (Suc J) ex)).
      j \<in> set (used @ [J, Suc J]) \<or> start_time s \<noteq> a"
    by auto
  have pre': "\<forall>(j, s)\<in>set (enumerate 0 (take J ex)).
      j \<in> set used \<or> start_time s \<noteq> a \<or> merge_partner ?all j s used b = None"
    using pre by auto
  have "merge_pass ?all (enumerate 0 (take J ex) @ (J, ex ! J) # enumerate (Suc J) (drop (Suc J) ex))
          [] used a b = (merged_content (ex ! J) (ex ! Suc J), used @ [J, Suc J])"
    by (rule merge_pass_first[OF pre' unused(1) sJ mid post])
  then have "merge_pass ?all ?all [] used a b
      = (merged_content (ex ! J) (ex ! Suc J), used @ [J, Suc J])"
    by (simp only: enumerate_split[OF J0, symmetric])
  with eos show ?thesis by (simp add: preserve_content_def)
qed

lemma merge_migration:
  assumes J: "Suc J < length ex"
    and sJ: "start_time (ex ! J) = a" and eJ: "end_time (ex ! J) = t"
    and sJ': "start_time (ex ! Suc J) = t" and eJ': "end_time (ex ! Suc J) = b"
    and at: "a < t" and tb: "t < b"
    and before: "\<forall>j<J. end_time (ex ! j) \<le> a"
    and after: "\<forall>j<length ex. Suc J < j \<longrightarrow> b \<le> start_time (ex ! j)"
    and wf: "\<forall>j<length ex. start_time (ex ! j) \<le> end_time (ex ! j)"
  shows "map time ms = ts1 @ [a, b] @ ts2 \<Longrightarrow> sorted (map time ms) \<Longrightarrow>
     J \<notin> set used \<Longrightarrow> Suc J \<notin> set used \<Longrightarrow>
     \<exists>segs u. segments_from ex ms i used = Inr (segs, u)
        \<and> content (segs ! length ts1) = merged_content (ex ! J) (ex ! Suc J)"
proof (induction ts1 arbitrary: ms i used)
  case Nil
  then obtain ma mb rest where ms: "ms = ma # mb # rest"
    and tm: "time ma = a" "time mb = b"
    by (auto simp: map_eq_Cons_conv)
  from Nil.prems(2) ms have srt: "sorted (map time (mb # rest))" by simp
  from segments_from_sorted[OF srt, of ex "Suc i" "used @ [J, Suc J]"] obtain segs u where
    rest: "segments_from ex (mb # rest) (Suc i) (used @ [J, Suc J]) = Inr (segs, u)" by blast
  have "preserve_content ex used a b = (merged_content (ex ! J) (ex ! Suc J), used @ [J, Suc J])"
    by (rule merge_at[OF J sJ eJ sJ' eJ' at tb before after wf Nil.prems(3,4)])
  with at tb rest ms tm show ?case
    by (simp add: Segment_def)
next
  case (Cons x ts1)
  then obtain m ms' where ms: "ms = m # ms'" and tm: "time m = x"
    and ms': "map time ms' = ts1 @ [a, b] @ ts2"
    by (auto simp: map_eq_Cons_conv)
  from ms' obtain m2 rest where ms2: "ms' = m2 # rest"
    by (cases ms') auto
  from Cons.prems(2) ms ms2 have le: "time m \<le> time m2" and srt: "sorted (map time ms')"
    by simp_all
  have m2a: "time m2 \<le> a"
  proof (cases ts1)
    case Nil with ms' ms2 show ?thesis by simp
  next
    case (Cons y ys)
    with ms' ms2 have "time m2 = y" by simp
    moreover from srt ms' Cons have "y \<le> a" by (simp add: sorted_append)
    ultimately show ?thesis by simp
  qed
  let ?u = "snd (preserve_content ex used (time m) (time m2))"
  from J have J0: "J < length ex" by simp
  have keep1: "J \<notin> set ?u"
    using at sJ eJ by (intro later_segment_kept[OF J0 _ _ wf le m2a Cons.prems(3)]) auto
  have keep2: "Suc J \<notin> set ?u"
    using at tb sJ' eJ' by (intro later_segment_kept[OF J _ _ wf le m2a Cons.prems(4)]) auto
  from Cons.IH[OF ms' srt keep1 keep2, of "Suc i"] obtain segs u where
    rec: "segments_from ex ms' (Suc i) ?u = Inr (segs, u)"
    and c: "content (segs ! length ts1) = merged_content (ex ! J) (ex ! Suc J)"
    by blast
  from le rec c ms ms2 show ?case
    by (simp add: Segment_def Let_def)
qed

lemma ranges_nth:
  assumes "ranges ex = consecutive os"
  shows "length ex = length os - 1"
    and "j < length ex \<Longrightarrow> start_time (ex ! j) = os ! j \<and> end_time (ex ! j) = os ! Suc j"
proof -
  from assms have "length (ranges ex) = length (consecutive os)" by simp
  then show len: "length ex = length os - 1"
    by (simp add: ranges_def consecutive_def)
  assume j: "j < length ex"
  with len have "ranges ex ! j = (start_time (ex ! j), end_time (ex ! j))"
    and "consecutive os ! j = (os ! j, os ! Suc j)"
    by (simp_all add: ranges_def consecutive_def nth_tl)
  with assms show "start_time (ex ! j) = os ! j \<and> end_time (ex ! j) = os ! Suc j"
    by simp
qed

lemma calculate_segments_ranges:
  assumes "calculate_segments ms ex = Inr segs"
  shows "ranges segs = consecutive (map time (sort_key time ms))"
proof (cases "2 \<le> length ms")
  case False
  with assms have "segs = []" by (simp add: calculate_segments_def calculate_run_def)
  moreover from False have "consecutive (map time (sort_key time ms)) = []"
    by (cases "sort_key time ms"; cases "tl (sort_key time ms)")
       (auto simp: consecutive_def dest: arg_cong[where f = length])
  ultimately show ?thesis by (simp add: ranges_def)
next
  case True
  from calculate_run_sorted[OF True, of ex] assms obtain u where
    len: "length segs = length ms - 1"
    and nth: "\<forall>k<length segs. index (segs ! k) = k
        \<and> start_time (segs ! k) = time (sort_key time ms ! k)
        \<and> end_time (segs ! k) = time (sort_key time ms ! Suc k)
        \<and> duration (segs ! k) = time (sort_key time ms ! Suc k) - time (sort_key time ms ! k)
        \<and> comment (segs ! k) = marker_comment (sort_key time ms ! k)"
    by (auto simp: calculate_segments_def split: sum.splits)
  show ?thesis
  proof (rule nth_equalityI)
    show "length (ranges segs) = length (consecutive (map time (sort_key time ms)))"
      using len by (simp add: ranges_def consecutive_def)
  next
    fix k assume "k < length (ranges segs)"
    then have k: "k < length segs" by (simp add: ranges_def)
    with nth len show "ranges segs ! k = consecutive (map time (sort_key time ms)) ! k"
      by (simp add: ranges_def consecutive_def nth_tl)
  qed
qed

lemma sorted_drop_middle: "sorted (xs @ a # t # b # ys) \<Longrightarrow> sorted (xs @ a # b # ys)"
  by (auto simp: sorted_append)

lemma sorted_add_middle:
  "sorted (xs @ a # b # ys) \<Longrightarrow> a \<le> t \<Longrightarrow> t \<le> (b::rat) \<Longrightarrow> sorted (xs @ a # t # b # ys)"
  by (fastforce simp: sorted_append)

lemma split_case:
  assumes r: "ranges ex = consecutive (ts1 @ [a, b] @ ts2)"
    and n: "map time (sort_key time ms) = ts1 @ [a, t, b] @ ts2"
    and at: "a < t" and tb: "t < b"
  shows "\<exists>segs. calculate_segments ms ex = Inr segs
      \<and> start_time (segs ! length ts1) = a \<and> end_time (segs ! length ts1) = t
      \<and> content (segs ! length ts1) = content (ex ! length ts1)
      \<and> start_time (segs ! Suc (length ts1)) = t \<and> end_time (segs ! Suc (length ts1)) = b
      \<and> content (segs ! Suc (length ts1)) = []"
proof -
  let ?J = "length ts1" and ?os = "ts1 @ [a, b] @ ts2" and ?sm = "sort_key time ms"
  have srt: "sorted (map time ?sm)" by (rule sorted_sort_key)
  with n have os: "sorted ?os" using sorted_drop_middle[of ts1 a t b ts2] by simp
  have len: "length ex = length ?os - 1" by (rule ranges_nth(1)[OF r])
  then have J: "?J < length ex" by simp
  have nth: "start_time (ex ! j) = ?os ! j \<and> end_time (ex ! j) = ?os ! Suc j" if "j < length ex" for j
    using ranges_nth(2)[OF r that] .
  have osJ: "?os ! ?J = a" "?os ! Suc ?J = b" by (simp_all add: nth_append)
  from nth[OF J] osJ have sJ: "start_time (ex ! ?J) = a" and eJ: "end_time (ex ! ?J) = b"
    by simp_all
  have before: "\<forall>j<?J. end_time (ex ! j) \<le> a"
  proof (intro allI impI)
    fix j assume j: "j < ?J"
    with J nth[of j] have "end_time (ex ! j) = ?os ! Suc j" by simp
    moreover from j have "?os ! Suc j \<le> ?os ! ?J"
      by (intro sorted_nth_mono[OF os]) simp_all
    ultimately show "end_time (ex ! j) \<le> a" using osJ by simp
  qed
  have after: "\<forall>j<length ex. ?J < j \<longrightarrow> b \<le> start_time (ex ! j)"
  proof (intro allI impI)
    fix j assume j: "j < length ex" "?J < j"
    with nth[of j] have "start_time (ex ! j) = ?os ! j" by simp
    moreover from j len have "?os ! Suc ?J \<le> ?os ! j"
      by (intro sorted_nth_mono[OF os]) simp_all
    ultimately show "b \<le> start_time (ex ! j)" using osJ by simp
  qed
  have wf: "\<forall>j<length ex. start_time (ex ! j) \<le> end_time (ex ! j)"
  proof (intro allI impI)
    fix j assume j: "j < length ex"
    with len have "?os ! j \<le> ?os ! Suc j"
      by (intro sorted_nth_mono[OF os]) simp_all
    with nth[OF j] show "start_time (ex ! j) \<le> end_time (ex ! j)" by simp
  qed
  from split_migration[OF J sJ eJ at tb before after wf n srt, of "[]" 0] obtain segs u where
    run: "segments_from ex ?sm 0 [] = Inr (segs, u)"
    and c: "content (segs ! ?J) = content (ex ! ?J)" "content (segs ! Suc ?J) = []"
    by auto
  from segments_from_sorted[OF srt, of ex 0 "[]"] run have
    lsegs: "length segs = length ?sm - 1"
    and pos: "\<forall>k<length segs. start_time (segs ! k) = time (?sm ! k)
        \<and> end_time (segs ! k) = time (?sm ! Suc k)"
    by auto
  from n have lsm: "length ?sm = length ts1 + 3 + length ts2"
    by (auto dest: arg_cong[where f = length])
  have tm: "time (?sm ! k) = (ts1 @ [a, t, b] @ ts2) ! k" if "k < length ?sm" for k
    using that n nth_map[of k ?sm time] by simp
  from lsm lsegs pos tm have "start_time (segs ! ?J) = a" "end_time (segs ! ?J) = t"
    "start_time (segs ! Suc ?J) = t" "end_time (segs ! Suc ?J) = b"
    by (simp_all add: nth_append)
  moreover from run lsm have "calculate_segments ms ex = Inr segs"
    by (simp add: calculate_segments_def calculate_run_def)
  ultimately show ?thesis using c by simp
qed

lemma merge_case:
  assumes r: "ranges ex = consecutive (ts1 @ [a, t, b] @ ts2)"
    and n: "map time (sort_key time ms) = ts1 @ [a, b] @ ts2"
    and at: "a < t" and tb: "t < b"
  shows "\<exists>segs. calculate_segments ms ex = Inr segs
      \<and> start_time (segs ! length ts1) = a \<and> end_time (segs ! length ts1) = b
      \<and> content (segs ! length ts1) = merged_content (ex ! length ts1) (ex ! Suc (length ts1))"
proof -
  let ?J = "length ts1" and ?os = "ts1 @ [a, t, b] @ ts2" and ?sm = "sort_key time ms"
  have srt: "sorted (map time ?sm)" by (rule sorted_sort_key)
  with n at tb have os: "sorted ?os" using sorted_add_middle[of ts1 a b ts2 t] by simp
  have len: "length ex = length ?os - 1" by (rule ranges_nth(1)[OF r])
  then have J: "Suc ?J < length ex" by simp
  then have J0: "?J < length ex" by simp
  have nth: "start_time (ex ! j) = ?os ! j \<and> end_time (ex ! j) = ?os ! Suc j" if "j < length ex" for j
    using ranges_nth(2)[OF r that] .
  have osJ: "?os ! ?J = a" "?os ! Suc ?J = t" "?os ! Suc (Suc ?J) = b" by (simp_all add: nth_append)
  from nth[OF J0] nth[OF J] osJ have sJ: "start_time (ex ! ?J) = a" and eJ: "end_time (ex ! ?J) = t"
    and sJ': "start_time (ex ! Suc ?J) = t" and eJ': "end_time (ex ! Suc ?J) = b"
    by simp_all
  have before: "\<forall>j<?J. end_time (ex ! j) \<le> a"
  proof (intro allI impI)
    fix j assume j: "j < ?J"
    with J nth[of j] have "end_time (ex ! j) = ?os ! Suc j" by simp
    moreover from j have "?os ! Suc j \<le> ?os ! ?J"
      by (intro sorted_nth_mono[OF os]) simp_all
    ultimately show "end_time (ex ! j) \<le> a" using osJ by simp
  qed
  have after: "\<forall>j<length ex. Suc ?J < j \<longrightarrow> b \<le> start_time (ex ! j)"
  proof (intro allI impI)
    fix j assume j: "j < length ex" "Suc ?J < j"
    with nth[of j] have "start_time (ex ! j) = ?os ! j" by simp
    moreover from j len have "?os ! Suc (Suc ?J) \<le> ?os ! j"
      by (intro sorted_nth_mono[OF os]) simp_all
    ultimately show "b \<le> start_time (ex ! j)" using osJ by simp
  qed
  have wf: "\<forall>j<length ex. start_time (ex ! j) \<le> end_time (ex ! j)"
  proof (intro allI impI)
    fix j assume j: "j < length ex"
    with len have "?os ! j \<le> ?os ! Suc j"
      by (intro sorted_nth_mono[OF os]) simp_all
    with nth[OF j] show "start_time (ex ! j) \<le> end_time (ex ! j)" by simp
  qed
  from merge_migration[OF J sJ eJ sJ' eJ' at tb before after wf n srt, of "[]" 0] obtain segs u where
    run: "segments_from ex ?sm 0 [] = Inr (segs, u)"
    and c: "content (segs ! ?J) = merged_content (ex ! ?J) (ex ! Suc ?J)"
    by auto
  from segments_from_sorted[OF srt, of ex 0 "[]"] run have
    lsegs: "length segs = length ?sm - 1"
    and pos: "\<forall>k<length segs. start_time (segs ! k) = time (?sm ! k)
        \<and> end_time (segs ! k) = time (?sm ! Suc k)"
    by auto
  from n have lsm: "length ?sm = length ts1 + 2 + length ts2"
    by (auto dest: arg_cong[where f = length])
  have tm: "time (?sm ! k) = (ts1 @ [a, b] @ ts2) ! k" if "k < length ?sm" for k
    using that n nth_map[of k ?sm time] by simp
  from lsm lsegs pos tm have "start_time (segs ! ?J) = a" "end_time (segs ! ?J) = b"
    by (simp_all add: nth_append)
  moreover from run lsm have "calculate_segments ms ex = Inr segs"
    by (simp add: calculate_segments_def calculate_run_def)
  ultimately show ?thesis using c by simp
qed

lemma merged_content_eq:
  "merged_content s1 s2 =
     (if content s1 = [] then content s2
      else if content s2 = [] then content s1
      else content s1 @ [CHR 0x0A] @ content s2)"
  by (simp add: merged_content_def)

text \<open>
  Claim C1. The previous segments have the consecutive pairs of the previous marker times as
  their ranges. If a marker is inserted at \<open>t\<close> strictly inside the previous segment
  \<open>[a, b]\<close>, the new segment \<open>[a, t]\<close> receives its content and the new segment \<open>[t, b]\<close>
  receives the empty content. If the marker at \<open>t\<close> between the previous segments \<open>[a, t]\<close>
  and \<open>[t, b]\<close> is deleted, the new segment \<open>[a, b]\<close> receives the two contents joined by a
  newline, an empty one left out. No previous segment is consumed twice in one
  recomputation: the list of the additions to \<^verbatim>\<open>used_old_segments\<close> has no repetition.
\<close>

theorem content_migration:
  "(ranges old = consecutive (ts1 @ [a, b] @ ts2)
      \<and> map time (sort_key time ms) = ts1 @ [a, t, b] @ ts2 \<and> a < t \<and> t < b
    \<longrightarrow> (\<exists>segs. calculate_segments ms old = Inr segs
          \<and> start_time (segs ! length ts1) = a \<and> end_time (segs ! length ts1) = t
          \<and> content (segs ! length ts1) = content (old ! length ts1)
          \<and> start_time (segs ! Suc (length ts1)) = t \<and> end_time (segs ! Suc (length ts1)) = b
          \<and> content (segs ! Suc (length ts1)) = []))
   \<and> (ranges old = consecutive (ts1 @ [a, t, b] @ ts2)
      \<and> map time (sort_key time ms) = ts1 @ [a, b] @ ts2 \<and> a < t \<and> t < b
    \<longrightarrow> (\<exists>segs. calculate_segments ms old = Inr segs
          \<and> start_time (segs ! length ts1) = a \<and> end_time (segs ! length ts1) = b
          \<and> content (segs ! length ts1) =
              (if content (old ! length ts1) = [] then content (old ! Suc (length ts1))
               else if content (old ! Suc (length ts1)) = [] then content (old ! length ts1)
               else content (old ! length ts1) @ [CHR 0x0A] @ content (old ! Suc (length ts1)))))
   \<and> distinct (used_old_segments ms old)"
  using split_case[of old ts1 a b ts2 ms t] merge_case[of old ts1 a t b ts2 ms]
    used_old_segments_distinct[of ms old]
  by (simp add: merged_content_eq)

theorem content_migration_witness:
  "(ranges [sg 0 0 10 ''W'', sg 1 10 40 ''X'', sg 2 40 100 ''Y'']
        = consecutive ([0] @ [10, 40] @ [100])
      \<and> map time (sort_key time [mk 0 ''Marker0'', mk 10 ''Marker1'', mk 40 ''Marker3'',
                                 mk 100 ''Marker500'', mk 25 ''Marker2''])
        = [0] @ [10, 25, 40] @ [100]
      \<and> (10::rat) < 25 \<and> (25::rat) < 40)
   \<and> (\<exists>segs. calculate_segments [mk 0 ''Marker0'', mk 10 ''Marker1'', mk 40 ''Marker3'',
                                 mk 100 ''Marker500'', mk 25 ''Marker2'']
                [sg 0 0 10 ''W'', sg 1 10 40 ''X'', sg 2 40 100 ''Y''] = Inr segs
         \<and> start_time (segs ! 1) = 10 \<and> end_time (segs ! 1) = 25 \<and> content (segs ! 1) = ''X''
         \<and> start_time (segs ! 2) = 25 \<and> end_time (segs ! 2) = 40 \<and> content (segs ! 2) = [])
   \<and> (ranges [sg 0 0 10 ''W'', sg 1 10 25 ''A'', sg 2 25 40 ''B'', sg 3 40 100 ''Y'']
        = consecutive ([0] @ [10, 25, 40] @ [100])
      \<and> map time (sort_key time [mk 0 ''Marker0'', mk 10 ''Marker1'', mk 40 ''Marker2'',
                                 mk 100 ''Marker500''])
        = [0] @ [10, 40] @ [100])
   \<and> (\<exists>segs. calculate_segments [mk 0 ''Marker0'', mk 10 ''Marker1'', mk 40 ''Marker2'',
                                 mk 100 ''Marker500'']
                [sg 0 0 10 ''W'', sg 1 10 25 ''A'', sg 2 25 40 ''B'', sg 3 40 100 ''Y''] = Inr segs
         \<and> start_time (segs ! 1) = 10 \<and> end_time (segs ! 1) = 40
         \<and> content (segs ! 1) = ''A'' @ [CHR 0x0A] @ ''B'')"
proof -
  let ?old1 = "[sg 0 0 10 ''W'', sg 1 10 40 ''X'', sg 2 40 100 ''Y'']"
  let ?ms1 = "[mk 0 ''Marker0'', mk 10 ''Marker1'', mk 40 ''Marker3'', mk 100 ''Marker500'',
               mk 25 ''Marker2'']"
  let ?old2 = "[sg 0 0 10 ''W'', sg 1 10 25 ''A'', sg 2 25 40 ''B'', sg 3 40 100 ''Y'']"
  let ?ms2 = "[mk 0 ''Marker0'', mk 10 ''Marker1'', mk 40 ''Marker2'', mk 100 ''Marker500'']"
  have h1: "ranges ?old1 = consecutive ([0] @ [10, 40] @ [100])
      \<and> map time (sort_key time ?ms1) = [0] @ [10, 25, 40] @ [100]
      \<and> (10::rat) < 25 \<and> (25::rat) < 40"
    by (simp add: ranges_def consecutive_def sg_def mk_def)
  have h2: "ranges ?old2 = consecutive ([0] @ [10, 25, 40] @ [100])
      \<and> map time (sort_key time ?ms2) = [0] @ [10, 40] @ [100]
      \<and> (10::rat) < 25 \<and> (25::rat) < 40"
    by (simp add: ranges_def consecutive_def sg_def mk_def)
  from content_migration[of ?old1 "[0]" 10 40 "[100]" ?ms1 25] h1
  have "\<exists>segs. calculate_segments ?ms1 ?old1 = Inr segs
          \<and> start_time (segs ! length [0::rat]) = 10 \<and> end_time (segs ! length [0::rat]) = 25
          \<and> content (segs ! length [0::rat]) = content (?old1 ! length [0::rat])
          \<and> start_time (segs ! Suc (length [0::rat])) = 25
          \<and> end_time (segs ! Suc (length [0::rat])) = 40
          \<and> content (segs ! Suc (length [0::rat])) = []"
    by blast
  then have c1: "\<exists>segs. calculate_segments ?ms1 ?old1 = Inr segs
         \<and> start_time (segs ! 1) = 10 \<and> end_time (segs ! 1) = 25 \<and> content (segs ! 1) = ''X''
         \<and> start_time (segs ! 2) = 25 \<and> end_time (segs ! 2) = 40 \<and> content (segs ! 2) = []"
    by (simp add: sg_def numeral_2_eq_2)
  from content_migration[of ?old2 "[0]" 10 40 "[100]" ?ms2 25] h2
  have "\<exists>segs. calculate_segments ?ms2 ?old2 = Inr segs
          \<and> start_time (segs ! length [0::rat]) = 10 \<and> end_time (segs ! length [0::rat]) = 40
          \<and> content (segs ! length [0::rat]) =
              (if content (?old2 ! length [0::rat]) = [] then content (?old2 ! Suc (length [0::rat]))
               else if content (?old2 ! Suc (length [0::rat])) = [] then content (?old2 ! length [0::rat])
               else content (?old2 ! length [0::rat]) @ [CHR 0x0A]
                      @ content (?old2 ! Suc (length [0::rat])))"
    by blast
  then have c2: "\<exists>segs. calculate_segments ?ms2 ?old2 = Inr segs
         \<and> start_time (segs ! 1) = 10 \<and> end_time (segs ! 1) = 40
         \<and> content (segs ! 1) = ''A'' @ [CHR 0x0A] @ ''B''"
    by (simp add: sg_def)
  from h1 h2 c1 c2 show ?thesis by blast
qed

section \<open>Marker lists: spacing and fixed markers\<close>

lemma apart_iff:
  "apart ts \<longleftrightarrow> distinct ts \<and> (\<forall>a\<in>set ts. \<forall>b\<in>set ts. a \<noteq> b \<longrightarrow> 1 \<le> \<bar>a - b\<bar>)"
proof (induction ts)
  case Nil
  show ?case by simp
next
  case (Cons t ts)
  have "(\<forall>u\<in>set ts. 1 \<le> \<bar>t - u\<bar>) \<Longrightarrow> t \<notin> set ts"
    by force
  moreover have "\<bar>t - u\<bar> = \<bar>u - t\<bar>" for u
    by (rule abs_minus_commute)
  ultimately show ?case using Cons.IH by auto
qed

lemma apart_mset_eq:
  assumes "mset xs = mset ys"
  shows "apart xs = apart ys"
  using mset_eq_setD[OF assms] mset_eq_imp_distinct_iff[OF assms]
  by (simp add: apart_iff)

lemma apart_append_left: "apart (xs @ ys) \<Longrightarrow> apart xs"
  by (induction xs) auto

lemma apart_sub:
  assumes "mset ys \<subseteq># mset xs" "apart xs"
  shows "apart ys"
proof -
  from assms(1) obtain C where "mset xs = mset ys + C"
    by (auto simp: mset_subset_eq_exists_conv)
  moreover obtain zs where "C = mset zs"
    using ex_mset[of C] by auto
  ultimately have "mset xs = mset (ys @ zs)" by simp
  from apart_mset_eq[OF this] assms(2) have "apart (ys @ zs)" by simp
  then show ?thesis by (rule apart_append_left)
qed

lemma apart_add:
  assumes "apart xs" "\<forall>u\<in>set xs. 1 \<le> \<bar>u - t\<bar>" "mset ys \<subseteq># add_mset t (mset xs)"
  shows "apart ys"
proof -
  from assms(2) have "\<forall>u\<in>set xs. 1 \<le> \<bar>t - u\<bar>"
    by (simp add: abs_minus_commute)
  with assms(1) have "apart (t # xs)" by simp
  with assms(3) show ?thesis by (intro apart_sub[of ys "t # xs"]) simp_all
qed

lemma user_markers_apart_utimes: "user_markers_apart ms = apart (utimes ms)"
  by (simp add: user_markers_apart_def utimes_def)

lemma mset_utimes: "mset (utimes ms) = image_mset time (filter_mset (\<lambda>m. \<not> is_fixed m) (mset ms))"
  by (simp add: utimes_def)

lemma utimes_mono: "mset xs \<subseteq># mset ys \<Longrightarrow> mset (utimes xs) \<subseteq># mset (utimes ys)"
  unfolding mset_utimes by (intro image_mset_subseteq_mono multiset_filter_mono)

lemma utimes_sort: "mset (utimes (sort_key time ms)) = mset (utimes ms)"
  by (simp add: mset_utimes)

lemma time_renamed:
  "map time (map (\<lambda>(i, m). m\<lparr>name := f i\<rparr>) xs) = map (\<lambda>x. time (snd x)) xs"
  by (induction xs) auto

lemma utimes_append: "utimes (xs @ ys) = utimes xs @ utimes ys"
  by (simp add: utimes_def)

lemma utimes_fixed: "utimes (filter is_fixed ms) = []"
  by (induction ms) (simp_all add: utimes_def)

lemma utimes_sub: "mset (utimes xs) \<subseteq># mset (map time xs)"
  unfolding utimes_def mset_map mset_filter
  by (intro image_mset_subseteq_mono multiset_filter_subset)

lemma map_time_renamed:
  "map time (map (\<lambda>(i, m). m\<lparr>name := f i\<rparr>) (enumerate n xs)) = map time xs"
  by (induction xs arbitrary: n) simp_all

lemma utimes_renumber: "mset (utimes (renumber_user_markers ms)) \<subseteq># mset (utimes ms)"
proof -
  let ?users = "sort_key time (filter (\<lambda>m. \<not> is_fixed m) ms)"
  let ?renamed = "map (\<lambda>(i, m). m\<lparr>name := ''Marker'' @ str_nat (i + 1)\<rparr>) (enumerate 0 ?users)"
  have r: "renumber_user_markers ms = sort_key time (?renamed @ filter is_fixed ms)"
    unfolding renumber_user_markers_def Let_def ..
  have "mset (utimes (renumber_user_markers ms)) = mset (utimes (?renamed @ filter is_fixed ms))"
    unfolding r by (rule utimes_sort)
  also have "\<dots> = mset (utimes ?renamed)"
    unfolding utimes_append utimes_fixed by simp
  also have "\<dots> \<subseteq># mset (map time ?renamed)"
    by (rule utimes_sub)
  also have "map time ?renamed = map time ?users"
    by (rule map_time_renamed)
  also have "mset (map time ?users) = mset (utimes ms)"
    unfolding utimes_def by simp
  finally show ?thesis .
qed

lemma fixed_present_mono:
  assumes "set (filter is_fixed xs) \<subseteq> set (filter is_fixed ys)" "fixed_present xs"
  shows "fixed_present ys"
proof -
  from assms(2) obtain m0 m5 where m: "m0 \<in> set xs" "name m0 = ''Marker0''"
      "m5 \<in> set xs" "name m5 = ''Marker500''"
    unfolding fixed_present_def by blast
  then have "m0 \<in> set (filter is_fixed xs)" "m5 \<in> set (filter is_fixed xs)"
    by (simp_all add: is_fixed_def)
  with assms(1) have "m0 \<in> set (filter is_fixed ys)" "m5 \<in> set (filter is_fixed ys)"
    by blast+
  then have "m0 \<in> set ys" "m5 \<in> set ys" by simp_all
  with m(2,4) show ?thesis unfolding fixed_present_def by blast
qed

lemma fixed_kept_renumber: "set (filter is_fixed ms) \<subseteq> set (filter is_fixed (renumber_user_markers ms))"
proof
  fix m assume "m \<in> set (filter is_fixed ms)"
  then have m: "m \<in> set ms" "is_fixed m" by simp_all
  then have "m \<in> set (filter is_fixed ms)" by simp
  then have "m \<in> set (renumber_user_markers ms)"
    unfolding renumber_user_markers_def Let_def set_sort set_append by (rule UnI2)
  with m show "m \<in> set (filter is_fixed (renumber_user_markers ms))" by simp
qed

lemma fixed_present_renumber: "fixed_present ms \<Longrightarrow> fixed_present (renumber_user_markers ms)"
  by (rule fixed_present_mono[OF fixed_kept_renumber])

section \<open>Renumbering and the new marker\<close>

lemma map_snd_insort_key:
  "map snd (insort_key (\<lambda>x. f (snd x)) x xs) = insort_key f (snd x) (map snd xs)"
  by (induction xs) simp_all

lemma map_snd_sort_key: "map snd (sort_key (\<lambda>x. f (snd x)) xs) = sort_key f (map snd xs)"
  by (induction xs) (simp_all add: map_snd_insort_key)

lemma map_snd_filter: "map snd (filter (\<lambda>x. P (snd x)) xs) = filter P (map snd xs)"
  by (induction xs) simp_all

lemma map_snd_renamed:
  "map snd (map (\<lambda>(i, (b, m)). (b, g i m)) (enumerate n xs))
     = map (\<lambda>(i, m). g i m) (enumerate n (map snd xs))"
  by (induction xs arbitrary: n) (simp_all add: case_prod_beta)

lemma renumber_tagged_snd: "map snd (renumber_tagged xs) = renumber_user_markers (map snd xs)"
proof -
  let ?users = "sort_key (\<lambda>x. time (snd x)) (filter (\<lambda>x. \<not> is_fixed (snd x)) xs)"
  have u: "map snd ?users = sort_key time (filter (\<lambda>m. \<not> is_fixed m) (map snd xs))"
    using map_snd_filter[of "\<lambda>m. \<not> is_fixed m" xs] by (simp only: map_snd_sort_key)
  have f: "map snd (filter (\<lambda>x. is_fixed (snd x)) xs) = filter is_fixed (map snd xs)"
    by (rule map_snd_filter)
  have "map snd (renumber_tagged xs)
      = sort_key time (map snd (map (\<lambda>(i, (b, m)). (b, m\<lparr>name := ''Marker'' @ str_nat (i + 1)\<rparr>))
            (enumerate 0 ?users))
          @ map snd (filter (\<lambda>x. is_fixed (snd x)) xs))"
    unfolding renumber_tagged_def Let_def map_snd_sort_key map_append ..
  also have "\<dots> = sort_key time (map (\<lambda>(i, m). m\<lparr>name := ''Marker'' @ str_nat (i + 1)\<rparr>)
            (enumerate 0 (map snd ?users)) @ filter is_fixed (map snd xs))"
    unfolding f map_snd_renamed[of "\<lambda>i m. m\<lparr>name := ''Marker'' @ str_nat (i + 1)\<rparr>"] ..
  also have "\<dots> = renumber_user_markers (map snd xs)"
    unfolding u renumber_user_markers_def Let_def ..
  finally show ?thesis .
qed

lemma renumber_tagged_keeps_tag:
  assumes "(b, m) \<in> set xs"
  shows "\<exists>m'. (b, m') \<in> set (renumber_tagged xs)"
proof (cases "is_fixed m")
  case True
  with assms have "(b, m) \<in> set (filter (\<lambda>x. is_fixed (snd x)) xs)" by simp
  then have "(b, m) \<in> set (renumber_tagged xs)"
    unfolding renumber_tagged_def Let_def set_sort set_append by (rule UnI2)
  then show ?thesis ..
next
  case False
  let ?users = "sort_key (\<lambda>x. time (snd x)) (filter (\<lambda>x. \<not> is_fixed (snd x)) xs)"
  let ?g = "\<lambda>(i, (b, m)). (b, m\<lparr>name := ''Marker'' @ str_nat (i + 1)\<rparr>)"
  from False assms have "(b, m) \<in> set ?users" by simp
  then obtain i where i: "i < length ?users" "?users ! i = (b, m)"
    unfolding in_set_conv_nth by blast
  then have "(i, (b, m)) \<in> set (enumerate 0 ?users)"
    by (simp add: in_set_enumerate_eq)
  then have "?g (i, (b, m)) \<in> ?g ` set (enumerate 0 ?users)"
    by (rule imageI)
  then have "?g (i, (b, m)) \<in> set (map ?g (enumerate 0 ?users))"
    by (simp only: set_map)
  then have "(b, m\<lparr>name := ''Marker'' @ str_nat (i + 1)\<rparr>) \<in> set (map ?g (enumerate 0 ?users))"
    by simp
  then have "(b, m\<lparr>name := ''Marker'' @ str_nat (i + 1)\<rparr>) \<in> set (renumber_tagged xs)"
    unfolding renumber_tagged_def Let_def set_sort set_append by (rule UnI1)
  then show ?thesis ..
qed

lemma renamed_new_marker_in_list:
  "renamed_new_marker ms new_marker
     \<in> set (renumber_user_markers (sort_key time (ms @ [new_marker])))"
proof -
  let ?tagged = "sort_key (\<lambda>x. time (snd x)) (map (Pair False) ms @ [(True, new_marker)])"
  have "(True, new_marker) \<in> set ?tagged" by simp
  from renumber_tagged_keeps_tag[OF this] obtain m' where
    m': "(True, m') \<in> set (renumber_tagged ?tagged)" ..
  then have "find fst (renumber_tagged ?tagged) \<noteq> None"
    by (auto simp: find_None_iff)
  then obtain b m where f: "find fst (renumber_tagged ?tagged) = Some (b, m)"
    by (cases "find fst (renumber_tagged ?tagged)") auto
  then have "(b, m) \<in> set (renumber_tagged ?tagged)"
    by (auto simp: find_Some_iff)
  then have "m \<in> set (map snd (renumber_tagged ?tagged))"
    by (force simp del: map_map)
  also have "map snd (renumber_tagged ?tagged) = renumber_user_markers (map snd ?tagged)"
    by (rule renumber_tagged_snd)
  also have "map snd ?tagged = sort_key time (ms @ [new_marker])"
    by (simp add: map_snd_sort_key comp_def)
  finally show ?thesis using f by (simp add: renamed_new_marker_def)
qed

lemma list_index_Some: "x \<in> set xs \<Longrightarrow> \<exists>i. list_index xs x = Some i"
  by (simp add: list_index_def)

lemma times_renumber: "mset (map time (renumber_user_markers ms)) = mset (map time ms)"
proof -
  let ?users = "sort_key time (filter (\<lambda>m. \<not> is_fixed m) ms)"
  let ?renamed = "map (\<lambda>(i, m). m\<lparr>name := ''Marker'' @ str_nat (i + 1)\<rparr>) (enumerate 0 ?users)"
  have "mset (map time (renumber_user_markers ms))
      = mset (map time ?renamed) + mset (map time (filter is_fixed ms))"
    unfolding renumber_user_markers_def Let_def
    by (simp only: mset_map mset_sort mset_append image_mset_union)
  also have "map time ?renamed = map time ?users"
    by (rule map_time_renamed)
  also have "mset (map time ?users) + mset (map time (filter is_fixed ms))
      = image_mset time (filter_mset (\<lambda>m. \<not> is_fixed m) (mset ms))
        + image_mset time (filter_mset is_fixed (mset ms))"
    by (simp only: mset_map mset_sort mset_filter)
  also have "\<dots> = image_mset time (filter_mset is_fixed (mset ms)
        + filter_mset (\<lambda>m. \<not> is_fixed m) (mset ms))"
    by (simp only: image_mset_union add.commute)
  also have "filter_mset is_fixed (mset ms) + filter_mset (\<lambda>m. \<not> is_fixed m) (mset ms) = mset ms"
    by (rule multiset_partition[symmetric])
  finally show ?thesis by (simp only: mset_map)
qed

section \<open>The two ways to add a marker\<close>

lemma find_Some_holds: "find P xs = Some x \<Longrightarrow> P x \<and> x \<in> set xs"
  by (induction xs) (simp_all split: if_splits)

lemma renumber_tagged_origin:
  assumes "(b, m') \<in> set (renumber_tagged xs)"
  shows "\<exists>m. (b, m) \<in> set xs \<and> time m' = time m"
proof -
  define users where "users = sort_key (\<lambda>x. time (snd x)) (filter (\<lambda>x. \<not> is_fixed (snd x)) xs)"
  define g :: "nat \<times> bool \<times> marker \<Rightarrow> bool \<times> marker"
    where "g = (\<lambda>(i, (b, m)). (b, m\<lparr>name := ''Marker'' @ str_nat (i + 1)\<rparr>))"
  have users_sub: "set users \<subseteq> set xs"
    unfolding users_def by simp
  from assms have "(b, m') \<in> set (map g (enumerate 0 users)) \<union> set (filter (\<lambda>x. is_fixed (snd x)) xs)"
    unfolding renumber_tagged_def Let_def set_sort set_append users_def g_def .
  then show ?thesis
  proof
    assume "(b, m') \<in> set (map g (enumerate 0 users))"
    then have "(b, m') \<in> g ` set (enumerate 0 users)" by (simp only: set_map)
    then obtain x where x: "x \<in> set (enumerate 0 users)" "(b, m') = g x" by (rule imageE)
    obtain i c m where xe: "x = (i, (c, m))" by (rule prod_cases3)
    from x(1) have "fst x < length users \<and> snd x = users ! fst x"
      by (simp add: in_set_enumerate_eq)
    then have "snd x \<in> set users"
      using nth_mem[of "fst x" users] by simp
    with xe users_sub have "(c, m) \<in> set xs" by auto
    moreover from x(2) xe have "b = c" "time m' = time m"
      by (simp_all add: g_def)
    ultimately show ?thesis by blast
  next
    assume "(b, m') \<in> set (filter (\<lambda>x. is_fixed (snd x)) xs)"
    then have "(b, m') \<in> set xs" by simp
    then show ?thesis by blast
  qed
qed

lemma renamed_new_marker_time: "time (renamed_new_marker ms new_marker) = time new_marker"
proof -
  let ?tagged = "sort_key (\<lambda>x. time (snd x)) (map (Pair False) ms @ [(True, new_marker)])"
  show ?thesis
  proof (cases "find fst (renumber_tagged ?tagged)")
    case None
    then show ?thesis by (simp add: renamed_new_marker_def)
  next
    case (Some r)
    obtain b m where r: "r = (b, m)" by (cases r)
    from find_Some_holds[OF Some] r
    have "fst (b, m)" and mem: "(b, m) \<in> set (renumber_tagged ?tagged)" by blast+
    then have "b = True" by simp
    from mem[unfolded this] have "(True, m) \<in> set (renumber_tagged ?tagged)" .
    from renumber_tagged_origin[OF this] obtain m0 where
      "(True, m0) \<in> set ?tagged" "time m = time m0" by blast
    then have "time m = time new_marker" by auto
    with Some r show ?thesis by (simp add: renamed_new_marker_def)
  qed
qed

lemma add_marker_accepted:
  assumes "current_file p" "length (markers s) < max_markers"
    and "\<not> exceeds_valid_range p (requested_time py_int p)"
    and "within_1_second (requested_time py_int p) (markers s) = None"
  shows "\<exists>i. add_marker py_int p s =
     (Added_marker (time (new_marker_at (requested_time py_int p))),
      s\<lparr>markers := renumber_user_markers
             (sort_key time (markers s @ [new_marker_at (requested_time py_int p)])),
        selected_marker_index := Some i\<rparr>)"
proof -
  let ?new = "new_marker_at (requested_time py_int p)"
  let ?ms = "renumber_user_markers (sort_key time (markers s @ [?new]))"
  from list_index_Some[OF renamed_new_marker_in_list[of "markers s" ?new]] obtain i where
    "list_index ?ms (renamed_new_marker (markers s) ?new) = Some i" ..
  with assms have "add_marker py_int p s =
     (Added_marker (time ?new), s\<lparr>markers := ?ms, selected_marker_index := Some i\<rparr>)"
    by (simp add: add_marker_def Let_def renamed_new_marker_time)
  then show ?thesis ..
qed

lemma add_marker_at_time_accepted:
  assumes "current_file p" "length (markers s) < max_markers"
    and "total_seconds py_int p = Some t"
    and "\<not> exceeds_valid_range p t"
    and "within_1_second t (markers s) = None"
  shows "\<exists>i m. add_marker_at_time py_int p s =
     (Added_marker t,
      push_to_undo_stack
        (s\<lparr>markers := renumber_user_markers (sort_key time (markers s @ [new_marker_at t])),
           selected_marker_index := Some i\<rparr>)
        (Add_marker i m))"
proof -
  let ?new = "new_marker_at t"
  let ?ms = "renumber_user_markers (sort_key time (markers s @ [?new]))"
  from list_index_Some[OF renamed_new_marker_in_list[of "markers s" ?new]] obtain i where
    "list_index ?ms (renamed_new_marker (markers s) ?new) = Some i" ..
  with assms have "add_marker_at_time py_int p s =
     (Added_marker t,
      push_to_undo_stack (s\<lparr>markers := ?ms, selected_marker_index := Some i\<rparr>)
        (Add_marker i (renamed_new_marker (markers s) ?new)))"
    by (simp add: add_marker_at_time_def Let_def)
  then show ?thesis by blast
qed

lemma markers_push [simp]: "markers (push_to_undo_stack s operation) = markers s"
  by (simp add: push_to_undo_stack_def Let_def)

lemma add_marker_markers:
  "markers (snd (add_marker py_int p s)) = markers s
   \<or> (within_1_second (requested_time py_int p) (markers s) = None
      \<and> markers (snd (add_marker py_int p s)) =
          renumber_user_markers (sort_key time (markers s @ [new_marker_at (requested_time py_int p)])))"
proof (cases "current_file p \<and> length (markers s) < max_markers
    \<and> \<not> exceeds_valid_range p (requested_time py_int p)
    \<and> within_1_second (requested_time py_int p) (markers s) = None")
  case True
  with add_marker_accepted[of p s py_int] show ?thesis by auto
next
  case False
  then consider "\<not> current_file p" | "current_file p" "\<not> length (markers s) < max_markers"
    | "current_file p" "length (markers s) < max_markers"
      "exceeds_valid_range p (requested_time py_int p)"
    | m where "current_file p" "length (markers s) < max_markers"
      "\<not> exceeds_valid_range p (requested_time py_int p)"
      "within_1_second (requested_time py_int p) (markers s) = Some m"
    by (cases "within_1_second (requested_time py_int p) (markers s)") blast+
  then have "snd (add_marker py_int p s) = s"
    by cases (simp_all add: add_marker_def Let_def)
  then show ?thesis by simp
qed

lemma add_marker_at_time_markers:
  "markers (snd (add_marker_at_time py_int p s)) = markers s
   \<or> (\<exists>t. total_seconds py_int p = Some t \<and> within_1_second t (markers s) = None
      \<and> markers (snd (add_marker_at_time py_int p s)) =
          renumber_user_markers (sort_key time (markers s @ [new_marker_at t])))"
proof (cases "total_seconds py_int p")
  case None
  then have "snd (add_marker_at_time py_int p s) = s"
    by (simp add: add_marker_at_time_def)
  then show ?thesis by simp
next
  case (Some t)
  show ?thesis
  proof (cases "current_file p \<and> length (markers s) < max_markers
      \<and> \<not> exceeds_valid_range p t \<and> within_1_second t (markers s) = None")
    case True
    with add_marker_at_time_accepted[of p s py_int t] Some show ?thesis by auto
  next
    case False
    then consider "\<not> current_file p" | "current_file p" "\<not> length (markers s) < max_markers"
      | "current_file p" "length (markers s) < max_markers" "exceeds_valid_range p t"
      | m where "current_file p" "length (markers s) < max_markers"
        "\<not> exceeds_valid_range p t" "within_1_second t (markers s) = Some m"
      by (cases "within_1_second t (markers s)") blast+
    then have "snd (add_marker_at_time py_int p s) = s"
      using Some by cases (simp_all add: add_marker_at_time_def Let_def)
    then show ?thesis by simp
  qed
qed

lemma length_user_markers: "length (user_markers ms) \<le> length ms"
  by (simp add: user_markers_def)

text \<open>
  Claim C6. With a file loaded and a hundred non-fixed markers in the list, the button path
  and the entry path both report that the maximum is reached and return the manager as it
  was: the marker list, the two stacks and the selection. (The test of the source is on the
  length of the whole list, the fixed markers included.)
\<close>

theorem capacity_rejected:
  assumes "current_file p" "length (user_markers (markers s)) = 100"
  shows "add_marker py_int p s = (Maximum_markers_reached, s)
     \<and> add_marker_at_time py_int p s = (Maximum_markers_reached, s)"
proof -
  from assms(2) length_user_markers[of "markers s"] have "max_markers \<le> length (markers s)"
    by (simp add: max_markers_def)
  with assms(1) show ?thesis
    by (simp add: add_marker_def add_marker_at_time_def)
qed

lemma full_manager_users: "length (user_markers (markers full_manager)) = 100"
  by code_simp

theorem capacity_rejected_witness:
  "current_file (idle_player\<lparr>preview_marker_time := Some 250\<rparr>)
   \<and> length (user_markers (markers full_manager)) = 100
   \<and> add_marker decimal_int (idle_player\<lparr>preview_marker_time := Some 250\<rparr>) full_manager
       = (Maximum_markers_reached, full_manager)
   \<and> add_marker_at_time decimal_int (idle_player\<lparr>preview_marker_time := Some 250\<rparr>) full_manager
       = (Maximum_markers_reached, full_manager)"
proof -
  have f: "current_file (idle_player\<lparr>preview_marker_time := Some 250\<rparr>)"
    by (simp add: idle_player_def)
  from capacity_rejected[OF f full_manager_users, of decimal_int] f full_manager_users
  show ?thesis by simp
qed

section \<open>Times close to zero\<close>

lemma user_time_after_renumber:
  assumes "m \<in> set (renumber_user_markers ms)" "\<not> is_fixed m"
  shows "\<exists>m0\<in>set ms. \<not> is_fixed m0 \<and> time m0 = time m"
proof -
  from assms have "time m \<in> set (utimes (renumber_user_markers ms))"
    unfolding utimes_def by simp
  then have "time m \<in># mset (utimes (renumber_user_markers ms))" by simp
  then have "time m \<in># mset (utimes ms)"
    by (rule mset_subset_eqD[OF utimes_renumber])
  then have "time m \<in> set (utimes ms)" by simp
  then show ?thesis unfolding utimes_def by auto
qed

lemma user_time_after_add:
  assumes "m \<in> set (renumber_user_markers (sort_key time (ms @ [new_marker])))" "\<not> is_fixed m"
  shows "time m = time new_marker \<or> (\<exists>m0\<in>set ms. \<not> is_fixed m0 \<and> time m0 = time m)"
proof -
  from user_time_after_renumber[OF assms] obtain m0 where
    "m0 \<in> set (sort_key time (ms @ [new_marker]))" "\<not> is_fixed m0" "time m0 = time m"
    by blast
  then show ?thesis by auto
qed

lemma new_marker_at_clamped: "\<bar>t\<bar> < 1 / 1000 \<Longrightarrow> new_marker_at t = mk (1 / 1000) ''TempMarker''"
  by (simp add: new_marker_at_def mk_def)

lemma new_marker_at_nonzero: "time (new_marker_at t) \<noteq> 0"
proof (cases "\<bar>t\<bar> < 1 / 1000")
  case True
  then show ?thesis by (simp add: new_marker_at_def)
next
  case False
  then have "t \<noteq> 0" by auto
  with False show ?thesis by (simp add: new_marker_at_def)
qed

lemma new_marker_at_lower:
  assumes "- (1 / 1000) < t"
  shows "1 / 1000 \<le> time (new_marker_at t)"
proof (cases "\<bar>t\<bar> < 1 / 1000")
  case True
  then show ?thesis by (simp add: new_marker_at_def)
next
  case False
  with assms have "1 / 1000 \<le> t" by linarith
  with False show ?thesis by (simp add: new_marker_at_def)
qed

lemma time_in_renumber: "t \<in> time ` set ms \<Longrightarrow> t \<in> time ` set (renumber_user_markers ms)"
proof -
  assume "t \<in> time ` set ms"
  then have "t \<in># mset (map time ms)" by simp
  then have "t \<in># mset (map time (renumber_user_markers ms))"
    by (simp only: times_renumber)
  then show ?thesis by simp
qed

lemma add_keeps_property:
  assumes old: "\<forall>m\<in>set ms. \<not> is_fixed m \<longrightarrow> P (time m)" and new: "P (time new_marker)"
  shows "\<forall>m\<in>set (renumber_user_markers (sort_key time (ms @ [new_marker]))). \<not> is_fixed m \<longrightarrow> P (time m)"
proof (intro ballI impI)
  fix m assume "m \<in> set (renumber_user_markers (sort_key time (ms @ [new_marker])))" "\<not> is_fixed m"
  from user_time_after_add[OF this] old new show "P (time m)" by auto
qed

lemma add_marker_keeps_property:
  assumes old: "\<forall>m\<in>set (markers s). \<not> is_fixed m \<longrightarrow> P (time m)"
    and new: "P (time (new_marker_at (requested_time py_int p)))"
  shows "\<forall>m\<in>set (markers (snd (add_marker py_int p s))). \<not> is_fixed m \<longrightarrow> P (time m)"
  using add_marker_markers[of py_int p s] add_keeps_property[of "markers s" P, OF old new] old
  by auto

lemma add_marker_at_time_keeps_property:
  assumes old: "\<forall>m\<in>set (markers s). \<not> is_fixed m \<longrightarrow> P (time m)"
    and new: "\<forall>t. total_seconds py_int p = Some t \<longrightarrow> P (time (new_marker_at t))"
  shows "\<forall>m\<in>set (markers (snd (add_marker_at_time py_int p s))). \<not> is_fixed m \<longrightarrow> P (time m)"
proof -
  from add_marker_at_time_markers[of py_int p s] show ?thesis
  proof
    assume "markers (snd (add_marker_at_time py_int p s)) = markers s"
    with old show ?thesis by simp
  next
    assume "\<exists>t. total_seconds py_int p = Some t \<and> within_1_second t (markers s) = None
      \<and> markers (snd (add_marker_at_time py_int p s)) =
          renumber_user_markers (sort_key time (markers s @ [new_marker_at t]))"
    then obtain t where t: "total_seconds py_int p = Some t"
      and ms: "markers (snd (add_marker_at_time py_int p s)) =
          renumber_user_markers (sort_key time (markers s @ [new_marker_at t]))"
      by blast
    from t new have "P (time (new_marker_at t))" by simp
    from add_keeps_property[of "markers s" P, OF old this] ms show ?thesis by simp
  qed
qed

text \<open>
  What the clamp of the two add paths achieves. A requested time within 0.001 of zero that
  passes the other checks is accepted, and the marker is stored at 0.001. Neither path
  leaves a non-fixed marker at exactly zero when there was none before. A list whose
  non-fixed markers are at 0.001 or later stays so for every request above -0.001; the
  bound is needed, as the evaluation after these lemmas shows.
\<close>

lemma zero_time_clamped:
  "(current_file p \<and> length (markers s) < max_markers
      \<and> \<bar>requested_time py_int p\<bar> < 1 / 1000
      \<and> \<not> exceeds_valid_range p (requested_time py_int p)
      \<and> within_1_second (requested_time py_int p) (markers s) = None
    \<longrightarrow> (\<exists>i. add_marker py_int p s =
           (Added_marker (1 / 1000),
            s\<lparr>markers := renumber_user_markers
                   (sort_key time (markers s @ [mk (1 / 1000) ''TempMarker''])),
              selected_marker_index := Some i\<rparr>))
        \<and> 1 / 1000 \<in> time ` set (markers (snd (add_marker py_int p s))))
   \<and> (current_file p \<and> length (markers s) < max_markers
      \<and> total_seconds py_int p = Some t \<and> \<bar>t\<bar> < 1 / 1000
      \<and> \<not> exceeds_valid_range p t \<and> within_1_second t (markers s) = None
    \<longrightarrow> (\<exists>i m. add_marker_at_time py_int p s =
           (Added_marker t,
            push_to_undo_stack
              (s\<lparr>markers := renumber_user_markers
                     (sort_key time (markers s @ [mk (1 / 1000) ''TempMarker''])),
                 selected_marker_index := Some i\<rparr>)
              (Add_marker i m)))
        \<and> 1 / 1000 \<in> time ` set (markers (snd (add_marker_at_time py_int p s))))
   \<and> ((\<forall>m\<in>set (markers s). \<not> is_fixed m \<longrightarrow> time m \<noteq> 0)
    \<longrightarrow> (\<forall>m\<in>set (markers (snd (add_marker py_int p s))). \<not> is_fixed m \<longrightarrow> time m \<noteq> 0)
      \<and> (\<forall>m\<in>set (markers (snd (add_marker_at_time py_int p s))). \<not> is_fixed m \<longrightarrow> time m \<noteq> 0))
   \<and> ((\<forall>m\<in>set (markers s). \<not> is_fixed m \<longrightarrow> 1 / 1000 \<le> time m)
      \<and> - (1 / 1000) < requested_time py_int p
    \<longrightarrow> (\<forall>m\<in>set (markers (snd (add_marker py_int p s))). \<not> is_fixed m \<longrightarrow> 1 / 1000 \<le> time m))
   \<and> ((\<forall>m\<in>set (markers s). \<not> is_fixed m \<longrightarrow> 1 / 1000 \<le> time m)
      \<and> (\<forall>u. total_seconds py_int p = Some u \<longrightarrow> - (1 / 1000) < u)
    \<longrightarrow> (\<forall>m\<in>set (markers (snd (add_marker_at_time py_int p s))).
           \<not> is_fixed m \<longrightarrow> 1 / 1000 \<le> time m))"
proof (intro conjI impI)
  assume h: "current_file p \<and> length (markers s) < max_markers
      \<and> \<bar>requested_time py_int p\<bar> < 1 / 1000
      \<and> \<not> exceeds_valid_range p (requested_time py_int p)
      \<and> within_1_second (requested_time py_int p) (markers s) = None"
  with add_marker_accepted[of p s py_int]
  show a: "\<exists>i. add_marker py_int p s =
           (Added_marker (1 / 1000),
            s\<lparr>markers := renumber_user_markers
                   (sort_key time (markers s @ [mk (1 / 1000) ''TempMarker''])),
              selected_marker_index := Some i\<rparr>)"
    by (simp add: new_marker_at_clamped mk_def)
  have "1 / 1000 \<in> time ` set (sort_key time (markers s @ [mk (1 / 1000) ''TempMarker'']))"
    by (simp add: mk_def)
  from time_in_renumber[OF this] a
  show "1 / 1000 \<in> time ` set (markers (snd (add_marker py_int p s)))" by auto
next
  assume h: "current_file p \<and> length (markers s) < max_markers
      \<and> total_seconds py_int p = Some t \<and> \<bar>t\<bar> < 1 / 1000
      \<and> \<not> exceeds_valid_range p t \<and> within_1_second t (markers s) = None"
  with add_marker_at_time_accepted[of p s py_int t]
  show a: "\<exists>i m. add_marker_at_time py_int p s =
           (Added_marker t,
            push_to_undo_stack
              (s\<lparr>markers := renumber_user_markers
                     (sort_key time (markers s @ [mk (1 / 1000) ''TempMarker''])),
                 selected_marker_index := Some i\<rparr>)
              (Add_marker i m))"
    by (simp add: new_marker_at_clamped)
  have "1 / 1000 \<in> time ` set (sort_key time (markers s @ [mk (1 / 1000) ''TempMarker'']))"
    by (simp add: mk_def)
  from time_in_renumber[OF this] a
  show "1 / 1000 \<in> time ` set (markers (snd (add_marker_at_time py_int p s)))" by auto
next
  assume old: "\<forall>m\<in>set (markers s). \<not> is_fixed m \<longrightarrow> time m \<noteq> 0"
  show "\<forall>m\<in>set (markers (snd (add_marker py_int p s))). \<not> is_fixed m \<longrightarrow> time m \<noteq> 0"
    by (rule add_marker_keeps_property[of s "\<lambda>x. x \<noteq> 0", OF old new_marker_at_nonzero])
  show "\<forall>m\<in>set (markers (snd (add_marker_at_time py_int p s))). \<not> is_fixed m \<longrightarrow> time m \<noteq> 0"
    by (rule add_marker_at_time_keeps_property[of s "\<lambda>x. x \<noteq> 0", OF old])
       (simp add: new_marker_at_nonzero)
next
  assume h: "(\<forall>m\<in>set (markers s). \<not> is_fixed m \<longrightarrow> 1 / 1000 \<le> time m)
      \<and> - (1 / 1000) < requested_time py_int p"
  then have old: "\<forall>m\<in>set (markers s). \<not> is_fixed m \<longrightarrow> 1 / 1000 \<le> time m"
    by blast
  from h have new: "1 / 1000 \<le> time (new_marker_at (requested_time py_int p))"
    by (intro new_marker_at_lower) blast
  show "\<forall>m\<in>set (markers (snd (add_marker py_int p s))). \<not> is_fixed m \<longrightarrow> 1 / 1000 \<le> time m"
    by (rule add_marker_keeps_property[of s "\<lambda>x. 1 / 1000 \<le> x", OF old new])
next
  assume h: "(\<forall>m\<in>set (markers s). \<not> is_fixed m \<longrightarrow> 1 / 1000 \<le> time m)
      \<and> (\<forall>u. total_seconds py_int p = Some u \<longrightarrow> - (1 / 1000) < u)"
  then have old: "\<forall>m\<in>set (markers s). \<not> is_fixed m \<longrightarrow> 1 / 1000 \<le> time m"
    by blast
  from h have new: "\<forall>u. total_seconds py_int p = Some u \<longrightarrow> 1 / 1000 \<le> time (new_marker_at u)"
    using new_marker_at_lower by blast
  show "\<forall>m\<in>set (markers (snd (add_marker_at_time py_int p s))). \<not> is_fixed m \<longrightarrow> 1 / 1000 \<le> time m"
    by (rule add_marker_at_time_keeps_property[of s "\<lambda>x. 1 / 1000 \<le> x", OF old new])
qed

lemma zero_time_clamped_example:
  "(current_file (idle_player\<lparr>preview_marker_time := Some 0\<rparr>)
      \<and> length (markers one_marker_manager) < max_markers
      \<and> \<bar>requested_time decimal_int (idle_player\<lparr>preview_marker_time := Some 0\<rparr>)\<bar> < 1 / 1000
      \<and> \<not> exceeds_valid_range (idle_player\<lparr>preview_marker_time := Some 0\<rparr>)
            (requested_time decimal_int (idle_player\<lparr>preview_marker_time := Some 0\<rparr>))
      \<and> within_1_second (requested_time decimal_int (idle_player\<lparr>preview_marker_time := Some 0\<rparr>))
            (markers one_marker_manager) = None
      \<and> total_seconds decimal_int (idle_player\<lparr>preview_marker_time := Some 0\<rparr>) = Some 0
      \<and> list_all (\<lambda>m. is_fixed m \<or> 1 / 1000 \<le> time m) (markers one_marker_manager))
   \<and> fst (add_marker decimal_int (idle_player\<lparr>preview_marker_time := Some 0\<rparr>) one_marker_manager)
       = Added_marker (1 / 1000)
   \<and> markers (snd (add_marker decimal_int (idle_player\<lparr>preview_marker_time := Some 0\<rparr>)
         one_marker_manager))
       = [mk 0 ''Marker0'', mk (1 / 1000) ''Marker1'', mk 10 ''Marker2'', mk 100 ''Marker500'']
   \<and> markers (snd (add_marker_at_time decimal_int (idle_player\<lparr>preview_marker_time := Some 0\<rparr>)
         one_marker_manager))
       = [mk 0 ''Marker0'', mk (1 / 1000) ''Marker1'', mk 10 ''Marker2'', mk 100 ''Marker500'']
   \<and> list_all (\<lambda>m. is_fixed m \<or> 1 / 1000 \<le> time m)
         (markers (snd (add_marker decimal_int (idle_player\<lparr>preview_marker_time := Some 0\<rparr>)
            one_marker_manager)))
   \<and> list_all (\<lambda>m. is_fixed m \<or> time m \<noteq> 0)
         (markers (snd (add_marker_at_time decimal_int (idle_player\<lparr>preview_marker_time := Some 0\<rparr>)
            one_marker_manager)))"
proof -
  let ?p = "idle_player\<lparr>preview_marker_time := Some 0\<rparr>"
  let ?s = one_marker_manager
  have h1: "current_file ?p" "length (markers ?s) < max_markers"
    "\<bar>requested_time decimal_int ?p\<bar> < 1 / 1000"
    "\<not> exceeds_valid_range ?p (requested_time decimal_int ?p)"
    "within_1_second (requested_time decimal_int ?p) (markers ?s) = None"
    "total_seconds decimal_int ?p = Some 0"
    by code_simp+
  have h2: "list_all (\<lambda>m. is_fixed m \<or> 1 / 1000 \<le> time m) (markers ?s)"
    by code_simp
  then have old: "\<forall>m\<in>set (markers ?s). \<not> is_fixed m \<longrightarrow> 1 / 1000 \<le> time m"
    "\<forall>m\<in>set (markers ?s). \<not> is_fixed m \<longrightarrow> time m \<noteq> 0"
    by (auto simp: list_all_iff)
  have req: "requested_time decimal_int ?p = 0"
    by code_simp
  note z = zero_time_clamped[of ?p ?s decimal_int 0]
  from z h1 have "\<exists>i. add_marker decimal_int ?p ?s =
           (Added_marker (1 / 1000),
            ?s\<lparr>markers := renumber_user_markers
                   (sort_key time (markers ?s @ [mk (1 / 1000) ''TempMarker''])),
              selected_marker_index := Some i\<rparr>)"
    by blast
  then have c1: "fst (add_marker decimal_int ?p ?s) = Added_marker (1 / 1000)"
    by auto
  have c2: "markers (snd (add_marker decimal_int ?p ?s))
       = [mk 0 ''Marker0'', mk (1 / 1000) ''Marker1'', mk 10 ''Marker2'', mk 100 ''Marker500'']"
    by code_simp
  have c3: "markers (snd (add_marker_at_time decimal_int ?p ?s))
       = [mk 0 ''Marker0'', mk (1 / 1000) ''Marker1'', mk 10 ''Marker2'', mk 100 ''Marker500'']"
    by code_simp
  from z old(1) req
  have "\<forall>m\<in>set (markers (snd (add_marker decimal_int ?p ?s))). \<not> is_fixed m \<longrightarrow> 1 / 1000 \<le> time m"
    by simp
  then have c4: "list_all (\<lambda>m. is_fixed m \<or> 1 / 1000 \<le> time m)
         (markers (snd (add_marker decimal_int ?p ?s)))"
    by (auto simp: list_all_iff)
  from z old(2)
  have "\<forall>m\<in>set (markers (snd (add_marker_at_time decimal_int ?p ?s))). \<not> is_fixed m \<longrightarrow> time m \<noteq> 0"
    by blast
  then have c5: "list_all (\<lambda>m. is_fixed m \<or> time m \<noteq> 0)
         (markers (snd (add_marker_at_time decimal_int ?p ?s)))"
    by (auto simp: list_all_iff)
  from h1 h2 c1 c2 c3 c4 c5 show ?thesis by blast
qed

text \<open>
  Claim C9. The source differs from the claim. A request within 0.001 of zero is stored at
  0.001, as the claim says (last conjunct). But the test of both add paths is
  \<^verbatim>\<open>abs(marker_time) < 0.001\<close>: the entry \<^verbatim>\<open>-5\<close> passes every check and is stored at -5, a
  non-fixed marker below 0.001. \<^verbatim>\<open>update_selected_marker_time\<close> tests
  \<^verbatim>\<open>new_time < 0.001\<close> and stores the same entry at 0.001.
\<close>

theorem negative_request_stored:
  "add_marker_at_time decimal_int (idle_player\<lparr>second_str := ''-5''\<rparr>) start_manager
     = (Added_marker (- 5),
        \<lparr>markers = [mk (- 5) ''Marker1'', mk 0 ''Marker0'', mk 100 ''Marker500''],
         undo_stack = [Add_marker 0 (mk (- 5) ''Marker1'')], redo_stack = [],
         selected_marker_index = Some 0\<rparr>)
   \<and> add_marker decimal_int (idle_player\<lparr>second_str := ''-5''\<rparr>) start_manager
     = (Added_marker (- 5),
        \<lparr>markers = [mk (- 5) ''Marker1'', mk 0 ''Marker0'', mk 100 ''Marker500''],
         undo_stack = [], redo_stack = [], selected_marker_index = Some 0\<rparr>)
   \<and> \<not> is_fixed (mk (- 5) ''Marker1'')
   \<and> time (mk (- 5) ''Marker1'') < 1 / 1000
   \<and> markers (snd (update_selected_marker_time decimal_int (idle_player\<lparr>second_str := ''-5''\<rparr>)
        two_marker_manager))
     = [mk 0 ''Marker0'', mk (1 / 1000) ''Marker1'', mk 20 ''Marker2'', mk 100 ''Marker500'']
   \<and> markers (snd (add_marker_at_time decimal_int (idle_player\<lparr>second_str := ''0''\<rparr>)
        start_manager))
     = [mk 0 ''Marker0'', mk (1 / 1000) ''Marker1'', mk 100 ''Marker500'']"
  by code_simp

section \<open>The invariants along a run\<close>

lemma spaced_sub:
  assumes "spaced ms" "set (filter is_fixed ms) \<subseteq> set (filter is_fixed ms')"
    and "mset (utimes ms') \<subseteq># mset (utimes ms)"
  shows "spaced ms'"
  using assms fixed_present_mono[OF assms(2)] apart_sub[OF assms(3)]
  by (simp add: spaced_def user_markers_apart_utimes)

lemma spaced_renumber: "spaced ms \<Longrightarrow> spaced (renumber_user_markers ms)"
  by (rule spaced_sub[OF _ fixed_kept_renumber utimes_renumber])

lemma within_1_second_None:
  "within_1_second t ms = None \<Longrightarrow> \<forall>u\<in>set (utimes ms). 1 \<le> \<bar>u - t\<bar>"
  unfolding within_1_second_def find_None_iff utimes_def by auto

lemma new_marker_at_user: "\<not> is_fixed (new_marker_at t)"
  by (simp add: new_marker_at_def is_fixed_def)

lemma new_marker_at_unclamped: "\<not> \<bar>t\<bar> < 1 / 1000 \<Longrightarrow> time (new_marker_at t) = t"
  by (simp add: new_marker_at_def)

lemma add_keeps_spaced:
  assumes "spaced ms" "within_1_second t ms = None" "\<not> \<bar>t\<bar> < 1 / 1000"
  shows "spaced (renumber_user_markers (sort_key time (ms @ [new_marker_at t])))"
proof (rule spaced_renumber)
  let ?ms = "sort_key time (ms @ [new_marker_at t])"
  have ut: "mset (utimes ?ms) = add_mset t (mset (utimes ms))"
    using new_marker_at_user[of t] new_marker_at_unclamped[OF assms(3)]
    by (simp add: utimes_sort) (simp add: utimes_def)
  from assms(1) have a: "apart (utimes ms)"
    by (simp add: spaced_def user_markers_apart_utimes)
  from apart_add[OF a within_1_second_None[OF assms(2)], of "utimes ?ms"] ut
  have "apart (utimes ?ms)" by simp
  moreover have "set (filter is_fixed ms) \<subseteq> set (filter is_fixed ?ms)" by auto
  from fixed_present_mono[OF this] assms(1) have "fixed_present ?ms"
    by (simp add: spaced_def)
  ultimately show "spaced ?ms"
    by (simp add: spaced_def user_markers_apart_utimes)
qed

lemma add_marker_spaced:
  assumes "spaced (markers s)" "\<not> \<bar>requested_time py_int p\<bar> < 1 / 1000"
  shows "spaced (markers (snd (add_marker py_int p s)))"
  using add_marker_markers[of py_int p s] assms add_keeps_spaced[of "markers s" "requested_time py_int p"]
  by auto

lemma add_marker_at_time_spaced:
  assumes "spaced (markers s)"
    and "case total_seconds py_int p of None \<Rightarrow> True | Some t \<Rightarrow> \<not> \<bar>t\<bar> < 1 / 1000"
  shows "spaced (markers (snd (add_marker_at_time py_int p s)))"
proof -
  from add_marker_at_time_markers[of py_int p s] show ?thesis
  proof
    assume "markers (snd (add_marker_at_time py_int p s)) = markers s"
    with assms(1) show ?thesis by simp
  next
    assume "\<exists>t. total_seconds py_int p = Some t \<and> within_1_second t (markers s) = None
      \<and> markers (snd (add_marker_at_time py_int p s)) =
          renumber_user_markers (sort_key time (markers s @ [new_marker_at t]))"
    then obtain t where t: "total_seconds py_int p = Some t" "within_1_second t (markers s) = None"
      and ms: "markers (snd (add_marker_at_time py_int p s)) =
          renumber_user_markers (sort_key time (markers s @ [new_marker_at t]))"
      by blast
    from t(1) assms(2) have "\<not> \<bar>t\<bar> < 1 / 1000" by simp
    from add_keeps_spaced[OF assms(1) t(2) this] ms show ?thesis by simp
  qed
qed

lemma fixed_present_names:
  "fixed_present ms \<longleftrightarrow> ''Marker0'' \<in> set (map name ms) \<and> ''Marker500'' \<in> set (map name ms)"
  unfolding fixed_present_def set_map image_iff by (intro conj_cong refl bex_cong) (rule eq_commute)+

lemma is_fixed_time_update: "is_fixed (m\<lparr>time := t\<rparr>) = is_fixed m"
  by (simp add: is_fixed_def)

lemma utimes_move_fixed:
  assumes "sel < length ms" "is_fixed (ms ! sel)"
  shows "mset (utimes (ms[sel := (ms ! sel)\<lparr>time := t\<rparr>])) = mset (utimes ms)"
proof -
  define x where "x = ms ! sel"
  define y where "y = x\<lparr>time := t\<rparr>"
  have fy: "is_fixed y" and fx: "is_fixed x"
    using assms(2) by (simp_all add: x_def y_def is_fixed_time_update)
  have "mset (ms[sel := y]) = add_mset y (mset ms - {#x#})"
    unfolding x_def by (rule mset_update[OF assms(1)])
  then have "mset (utimes (ms[sel := y])) = mset (utimes ms)"
    using fx fy by (simp add: mset_utimes)
  then show ?thesis by (simp add: x_def y_def)
qed

lemma utimes_move_user:
  assumes "sel < length ms" "\<not> is_fixed (ms ! sel)"
  shows "mset (utimes (ms[sel := (ms ! sel)\<lparr>time := t\<rparr>]))
     = add_mset t (mset (remove1 (time (ms ! sel)) (utimes ms)))"
proof -
  define x where "x = ms ! sel"
  define y where "y = x\<lparr>time := t\<rparr>"
  define U where "U = filter_mset (\<lambda>m. \<not> is_fixed m) (mset ms)"
  have fy: "\<not> is_fixed y" and fx: "\<not> is_fixed x"
    using assms(2) by (simp_all add: x_def y_def is_fixed_time_update)
  have ty: "time y = t" by (simp add: y_def)
  have "x \<in> set ms" unfolding x_def using assms(1) by simp
  with fx have xU: "{#x#} \<subseteq># U" by (simp add: U_def)
  have "mset (ms[sel := y]) = add_mset y (mset ms - {#x#})"
    unfolding x_def by (rule mset_update[OF assms(1)])
  then have "filter_mset (\<lambda>m. \<not> is_fixed m) (mset (ms[sel := y])) = add_mset y (U - {#x#})"
    using fx fy by (simp add: U_def)
  then have "mset (utimes (ms[sel := y])) = add_mset t (image_mset time (U - {#x#}))"
    by (simp add: mset_utimes ty)
  also have "image_mset time (U - {#x#}) = image_mset time U - {#time x#}"
    using image_mset_Diff[OF xU, of time] by simp
  also have "image_mset time U = mset (utimes ms)"
    by (simp add: mset_utimes U_def)
  finally show ?thesis by (simp add: x_def y_def)
qed

lemma move_keeps_spaced:
  assumes sp: "spaced ms" and sel: "sel < length ms"
    and none: "find (\<lambda>existing_marker. \<not> (existing_marker = ms ! sel \<or> is_fixed existing_marker)
                  \<and> \<bar>time existing_marker - t\<bar> < 1) ms = None"
  shows "spaced (sort_key time (ms[sel := (ms ! sel)\<lparr>time := t\<rparr>]))"
proof -
  define ms' where "ms' = ms[sel := (ms ! sel)\<lparr>time := t\<rparr>]"
  have "map name ms' = (map name ms)[sel := name (ms ! sel)]"
    by (simp add: ms'_def map_update)
  also have "\<dots> = map name ms"
    using sel list_update_id[of "map name ms" sel] by simp
  finally have "set (map name ms') = set (map name ms)" by simp
  then have "set (map name (sort_key time ms')) = set (map name ms)"
    by (simp only: set_map set_sort)
  with sp have fp: "fixed_present (sort_key time ms')"
    unfolding spaced_def fixed_present_names by simp
  from sp have ap: "apart (utimes ms)"
    by (simp add: spaced_def user_markers_apart_utimes)
  have "apart (utimes ms')"
  proof (cases "is_fixed (ms ! sel)")
    case True
    from utimes_move_fixed[OF sel True, of t] have "mset (utimes ms') = mset (utimes ms)"
      by (simp add: ms'_def)
    from apart_mset_eq[OF this] ap show ?thesis by simp
  next
    case False
    define rest where "rest = remove1 (time (ms ! sel)) (utimes ms)"
    from utimes_move_user[OF sel False, of t]
    have m: "mset (utimes ms') = add_mset t (mset rest)"
      by (simp add: ms'_def rest_def)
    have "mset rest \<subseteq># mset (utimes ms)"
      by (simp add: rest_def)
    from apart_sub[OF this ap] have ar: "apart rest" .
    from ap have d: "distinct (utimes ms)" by (simp add: apart_iff)
    have far: "\<forall>u\<in>set rest. 1 \<le> \<bar>u - t\<bar>"
    proof
      fix u assume "u \<in> set rest"
      with d have u: "u \<in> set (utimes ms)" "u \<noteq> time (ms ! sel)"
        by (simp_all add: rest_def)
      then obtain m where m: "m \<in> set ms" "\<not> is_fixed m" "time m = u"
        unfolding utimes_def by auto
      with u(2) have "m \<noteq> ms ! sel" by auto
      with none m show "1 \<le> \<bar>u - t\<bar>"
        unfolding find_None_iff by auto
    qed
    from apart_add[OF ar far, of "utimes ms'"] m show ?thesis by simp
  qed
  then have "apart (utimes (sort_key time ms'))"
    using apart_mset_eq[OF utimes_sort[of ms']] by simp
  with fp show ?thesis
    by (simp add: spaced_def user_markers_apart_utimes ms'_def)
qed

lemma update_markers_cases:
  "markers (snd (update_selected_marker_time py_int p s)) = markers s
   \<or> (\<exists>sel t. sel < length (markers s) \<and> total_seconds py_int p = Some t
        \<and> find (\<lambda>existing_marker. \<not> (existing_marker = markers s ! sel \<or> is_fixed existing_marker)
                  \<and> \<bar>time existing_marker - t\<bar> < 1) (markers s) = None
        \<and> markers (snd (update_selected_marker_time py_int p s))
            = sort_key time ((markers s)[sel := (markers s ! sel)\<lparr>time :=
                 (if t < 1 / 1000 then 1 / 1000 else t)\<rparr>]))"
proof (cases "current_file p")
  case False
  then show ?thesis by (simp add: update_selected_marker_time_def)
next
  case loaded: True
  show ?thesis
  proof (cases "selected_marker_index s")
    case None
    with loaded show ?thesis by (simp add: update_selected_marker_time_def)
  next
    case (Some sel)
    show ?thesis
    proof (cases "sel < length (markers s)")
      case False
      with loaded Some show ?thesis by (simp add: update_selected_marker_time_def)
    next
      case sel: True
      show ?thesis
      proof (cases "total_seconds py_int p")
        case None
        with loaded Some sel show ?thesis by (simp add: update_selected_marker_time_def)
      next
        case t: (Some t)
        show ?thesis
        proof (cases "exceeds_valid_range p t")
          case True
          with loaded Some sel t show ?thesis by (simp add: update_selected_marker_time_def)
        next
          case range: False
          show ?thesis
          proof (cases "find (\<lambda>existing_marker.
                    \<not> (existing_marker = markers s ! sel \<or> is_fixed existing_marker)
                    \<and> \<bar>time existing_marker - t\<bar> < 1) (markers s)")
            case (Some m)
            with loaded \<open>selected_marker_index s = Some sel\<close> sel t range show ?thesis
              by (simp add: update_selected_marker_time_def)
          next
            case None
            with loaded \<open>selected_marker_index s = Some sel\<close> sel t range
            have "markers (snd (update_selected_marker_time py_int p s))
                = sort_key time ((markers s)[sel := (markers s ! sel)\<lparr>time :=
                     (if t < 1 / 1000 then 1 / 1000 else t)\<rparr>])"
              by (simp add: update_selected_marker_time_def Let_def split: option.split)
            with sel t None show ?thesis by blast
          qed
        qed
      qed
    qed
  qed
qed

lemma update_spaced:
  assumes "spaced (markers s)"
    and "case total_seconds py_int p of None \<Rightarrow> True | Some t \<Rightarrow> \<not> t < 1 / 1000"
  shows "spaced (markers (snd (update_selected_marker_time py_int p s)))"
proof -
  from update_markers_cases[of py_int p s] show ?thesis
  proof
    assume "markers (snd (update_selected_marker_time py_int p s)) = markers s"
    with assms(1) show ?thesis by simp
  next
    assume "\<exists>sel t. sel < length (markers s) \<and> total_seconds py_int p = Some t
        \<and> find (\<lambda>existing_marker. \<not> (existing_marker = markers s ! sel \<or> is_fixed existing_marker)
                  \<and> \<bar>time existing_marker - t\<bar> < 1) (markers s) = None
        \<and> markers (snd (update_selected_marker_time py_int p s))
            = sort_key time ((markers s)[sel := (markers s ! sel)\<lparr>time :=
                 (if t < 1 / 1000 then 1 / 1000 else t)\<rparr>])"
    then obtain sel t where sel: "sel < length (markers s)" and t: "total_seconds py_int p = Some t"
      and none: "find (\<lambda>existing_marker. \<not> (existing_marker = markers s ! sel \<or> is_fixed existing_marker)
                  \<and> \<bar>time existing_marker - t\<bar> < 1) (markers s) = None"
      and ms: "markers (snd (update_selected_marker_time py_int p s))
            = sort_key time ((markers s)[sel := (markers s ! sel)\<lparr>time :=
                 (if t < 1 / 1000 then 1 / 1000 else t)\<rparr>])"
      by blast
    from t assms(2) have "\<not> t < 1 / 1000" by simp
    with ms move_keeps_spaced[OF assms(1) sel none] show ?thesis by simp
  qed
qed

lemma del_at_fixed:
  assumes "i < length ms" "\<not> is_fixed (ms ! i)"
  shows "filter is_fixed (del_at i ms) = filter is_fixed ms"
proof -
  have "filter is_fixed ms = filter is_fixed (take i ms @ ms ! i # drop (Suc i) ms)"
    using id_take_nth_drop[OF assms(1)] by simp
  also have "\<dots> = filter is_fixed (del_at i ms)"
    using assms(2) by (simp add: del_at_def)
  finally show ?thesis by simp
qed

lemma del_at_mset:
  assumes "i < length ms"
  shows "mset (del_at i ms) \<subseteq># mset ms"
proof -
  have "mset ms = mset (take i ms @ ms ! i # drop (Suc i) ms)"
    using id_take_nth_drop[OF assms] by simp
  also have "\<dots> = add_mset (ms ! i) (mset (del_at i ms))"
    by (simp add: del_at_def)
  finally show ?thesis by simp
qed

lemma del_at_nth: "j < i \<Longrightarrow> i < length ms \<Longrightarrow> del_at i ms ! j = ms ! j"
  by (simp add: del_at_def nth_append)

lemma del_at_length: "i < length ms \<Longrightarrow> length (del_at i ms) = length ms - 1"
  by (simp add: del_at_def)

lemma del_at_spaced:
  assumes "spaced ms" "i < length ms" "\<not> is_fixed (ms ! i)"
  shows "spaced (del_at i ms)"
proof (rule spaced_sub[OF assms(1)])
  show "set (filter is_fixed ms) \<subseteq> set (filter is_fixed (del_at i ms))"
    using del_at_fixed[OF assms(2,3)] by simp
  show "mset (utimes (del_at i ms)) \<subseteq># mset (utimes ms)"
    by (rule utimes_mono[OF del_at_mset[OF assms(2)]])
qed

lemma del_each_desc:
  assumes "sorted (rev idxs)" "distinct idxs" "\<forall>i\<in>set idxs. i < length ms \<and> \<not> is_fixed (ms ! i)"
    and "spaced ms"
  shows "\<exists>ms'. del_each idxs ms = Inr ms' \<and> spaced ms'"
  using assms
proof (induction idxs arbitrary: ms)
  case Nil
  then show ?case by simp
next
  case (Cons idx rest)
  from Cons.prems(3) have idx: "idx < length ms" "\<not> is_fixed (ms ! idx)" by simp_all
  from Cons.prems(1) have srt: "sorted (rev rest)" and le: "\<forall>x\<in>set rest. x \<le> idx"
    by (simp_all add: sorted_append)
  from Cons.prems(2) have d: "distinct rest" and ne: "idx \<notin> set rest" by simp_all
  have lt: "x < idx" if "x \<in> set rest" for x
    using that le ne by (cases "x = idx") auto
  have valid: "\<forall>i\<in>set rest. i < length (del_at idx ms) \<and> \<not> is_fixed (del_at idx ms ! i)"
  proof
    fix i assume i: "i \<in> set rest"
    from lt[OF i] idx(1) have "i < length (del_at idx ms)"
      by (simp add: del_at_length)
    moreover from Cons.prems(3) i have "\<not> is_fixed (ms ! i)" by simp
    with lt[OF i] idx(1) have "\<not> is_fixed (del_at idx ms ! i)"
      by (simp add: del_at_nth)
    ultimately show "i < length (del_at idx ms) \<and> \<not> is_fixed (del_at idx ms ! i)" ..
  qed
  from Cons.IH[OF srt d valid del_at_spaced[OF Cons.prems(4) idx]] idx(1)
  show ?case by simp
qed

lemma delete_selected_spaced:
  assumes "spaced (markers s)" "sorted_wrt (<) (curselection p)"
  shows "spaced (markers (snd (delete_selected_marker p s)))"
proof -
  define ms where "ms = markers s"
  define chosen where "chosen = filter (\<lambda>idx. idx < length ms \<and> \<not> is_fixed (ms ! idx)) (curselection p)"
  define markers_to_delete where "markers_to_delete = map (\<lambda>idx. (idx, ms ! idx)) chosen"
  define sorted_to_delete where "sorted_to_delete = rev (sort_key fst (rev markers_to_delete))"
  define idxs where "idxs = map fst sorted_to_delete"
  have "rev idxs = map fst (sort_key fst (rev markers_to_delete))"
    by (simp add: idxs_def sorted_to_delete_def rev_map)
  then have s1: "sorted (rev idxs)" by (simp only: sorted_sort_key)
  have "mset idxs = mset (map fst markers_to_delete)"
    by (simp add: idxs_def sorted_to_delete_def)
  also have "map fst markers_to_delete = chosen"
    by (simp add: markers_to_delete_def comp_def)
  finally have m: "mset idxs = mset chosen" .
  from assms(2) have "distinct chosen"
    by (simp add: chosen_def strict_sorted_iff)
  with mset_eq_imp_distinct_iff[OF m] have s2: "distinct idxs" by simp
  from mset_eq_setD[OF m] have s3: "\<forall>i\<in>set idxs. i < length ms \<and> \<not> is_fixed (ms ! i)"
    by (simp add: chosen_def)
  from assms(1) have "spaced ms" by (simp add: ms_def)
  from del_each_desc[OF s1 s2 s3 this] obtain ms' where
    ms': "del_each idxs ms = Inr ms'" "spaced ms'" by blast
  have "markers (snd (delete_selected_marker p s)) = markers s
      \<or> markers (snd (delete_selected_marker p s)) = renumber_user_markers ms'"
    using ms'(1)
    unfolding delete_selected_marker_def Let_def
    by (simp add: idxs_def sorted_to_delete_def markers_to_delete_def chosen_def ms_def)
  with assms(1) spaced_renumber[OF ms'(2)] show ?thesis by auto
qed

lemma nearest_marker_in:
  "nearest_marker pos xs best = Some r \<Longrightarrow> r \<in> set xs \<or> best = Some r"
proof (induction xs arbitrary: best)
  case Nil
  then show ?case by simp
next
  case (Cons x xs)
  obtain i m where x: "x = (i, m)" by (cases x)
  from Cons.prems x Cons.IH[of "case best of None \<Rightarrow> Some (i, m)
        | Some (bi, bm) \<Rightarrow> if \<bar>time m - pos\<bar> < \<bar>time bm - pos\<bar> then Some (i, m) else best"]
  show ?case by (auto split: option.splits if_splits)
qed

lemma delete_nearest_spaced:
  assumes "spaced (markers s)"
  shows "spaced (markers (snd (delete_nearest_marker p s)))"
proof (cases "nearest_marker (current_pos p) (enumerate 0 (markers s)) None")
  case None
  then show ?thesis using assms by (simp add: delete_nearest_marker_def)
next
  case (Some r)
  obtain i m where r: "r = (i, m)" by (cases r)
  from nearest_marker_in[OF Some] r have "(i, m) \<in> set (enumerate 0 (markers s))" by simp
  then have i: "i < length (markers s)" "m = markers s ! i"
    by (simp_all add: in_set_enumerate_eq)
  show ?thesis
  proof (cases "\<not> current_file p \<or> markers s = [] \<or> is_fixed m \<or> \<not> askyesno p")
    case True
    then have "snd (delete_nearest_marker p s) = s"
      using Some r by (auto simp: delete_nearest_marker_def)
    with assms show ?thesis by simp
  next
    case False
    then have "markers (snd (delete_nearest_marker p s)) = del_at i (markers s)"
      using Some r by (simp add: delete_nearest_marker_def Let_def)
    with del_at_spaced[OF assms i(1)] False i(2) show ?thesis by simp
  qed
qed

lemma delete_all_spaced:
  assumes "spaced (markers s)"
  shows "spaced (markers (snd (delete_all_markers p s)))"
proof -
  have "spaced (filter is_fixed (markers s))"
    by (rule spaced_sub[OF assms]) (simp_all add: utimes_fixed)
  with assms show ?thesis
    by (simp add: delete_all_markers_def Let_def)
qed

lemma step_spaced:
  assumes "spaced (markers s)" "unclamped py_int a" "selection_ascending a"
  shows "spaced (markers (step py_int s a))"
proof (cases a)
  case (Add p)
  with assms show ?thesis by (simp add: add_marker_spaced)
next
  case (Add_at_time p)
  with assms show ?thesis by (simp add: add_marker_at_time_spaced)
next
  case (Update_time p)
  with assms show ?thesis by (simp add: update_spaced)
next
  case (Delete_selected p)
  with assms show ?thesis by (simp add: delete_selected_spaced)
next
  case (Delete_nearest p)
  with assms show ?thesis by (simp add: delete_nearest_spaced)
next
  case (Delete_all p)
  with assms show ?thesis by (simp add: delete_all_spaced)
next
  case (Select i)
  with assms show ?thesis by simp
qed

lemma run_spaced:
  "spaced (markers s) \<Longrightarrow> \<forall>a\<in>set as. unclamped py_int a \<and> selection_ascending a \<Longrightarrow>
   spaced (markers (run py_int s as))"
proof (induction as arbitrary: s)
  case Nil
  then show ?case by simp
next
  case (Cons a as)
  from Cons.prems have "spaced (markers (step py_int s a))"
    by (intro step_spaced) simp_all
  from Cons.IH[OF this] Cons.prems(2) show ?case by simp
qed

text \<open>
  On exact times: from a list that holds both fixed markers and whose non-fixed markers are
  pairwise at least one second apart, every sequence of add, move, delete and select calls
  in which no requested time is one that gets clamped, and in which the list box selections
  are strictly ascending, leads to a list with the same two properties. The distance to a
  fixed marker is not part of it: the checks of the source skip Marker0 and Marker500.
\<close>

lemma fixed_markers_and_spacing_kept:
  assumes "fixed_present (markers s)" "user_markers_apart (markers s)"
    and "\<forall>a\<in>set as. unclamped py_int a \<and> selection_ascending a"
  shows "fixed_present (markers (run py_int s as)) \<and> user_markers_apart (markers (run py_int s as))"
  using run_spaced[of s as py_int] assms by (simp add: spaced_def)

lemma fixed_markers_and_spacing_kept_example:
  "fixed_present (markers start_manager) \<and> user_markers_apart (markers start_manager)
   \<and> list_all (\<lambda>a. unclamped decimal_int a \<and> selection_ascending a)
        [Add (idle_player\<lparr>preview_marker_time := Some 10\<rparr>),
         Add_at_time (idle_player\<lparr>second_str := ''20''\<rparr>),
         Select (Some 1),
         Update_time (idle_player\<lparr>second_str := ''30''\<rparr>),
         Delete_selected (idle_player\<lparr>curselection := [1]\<rparr>),
         Add (idle_player\<lparr>preview_marker_time := Some (1 / 2)\<rparr>)]
   \<and> markers (run decimal_int start_manager
        [Add (idle_player\<lparr>preview_marker_time := Some 10\<rparr>),
         Add_at_time (idle_player\<lparr>second_str := ''20''\<rparr>),
         Select (Some 1),
         Update_time (idle_player\<lparr>second_str := ''30''\<rparr>),
         Delete_selected (idle_player\<lparr>curselection := [1]\<rparr>),
         Add (idle_player\<lparr>preview_marker_time := Some (1 / 2)\<rparr>)])
       = [mk 0 ''Marker0'', mk (1 / 2) ''Marker1'', mk 30 ''Marker2'', mk 100 ''Marker500'']
   \<and> fixed_present (markers (run decimal_int start_manager
        [Add (idle_player\<lparr>preview_marker_time := Some 10\<rparr>),
         Add_at_time (idle_player\<lparr>second_str := ''20''\<rparr>),
         Select (Some 1),
         Update_time (idle_player\<lparr>second_str := ''30''\<rparr>),
         Delete_selected (idle_player\<lparr>curselection := [1]\<rparr>),
         Add (idle_player\<lparr>preview_marker_time := Some (1 / 2)\<rparr>)]))
   \<and> user_markers_apart (markers (run decimal_int start_manager
        [Add (idle_player\<lparr>preview_marker_time := Some 10\<rparr>),
         Add_at_time (idle_player\<lparr>second_str := ''20''\<rparr>),
         Select (Some 1),
         Update_time (idle_player\<lparr>second_str := ''30''\<rparr>),
         Delete_selected (idle_player\<lparr>curselection := [1]\<rparr>),
         Add (idle_player\<lparr>preview_marker_time := Some (1 / 2)\<rparr>)]))"
proof -
  let ?as = "[Add (idle_player\<lparr>preview_marker_time := Some 10\<rparr>),
         Add_at_time (idle_player\<lparr>second_str := ''20''\<rparr>),
         Select (Some 1),
         Update_time (idle_player\<lparr>second_str := ''30''\<rparr>),
         Delete_selected (idle_player\<lparr>curselection := [1]\<rparr>),
         Add (idle_player\<lparr>preview_marker_time := Some (1 / 2)\<rparr>)]"
  have a: "fixed_present (markers start_manager)" by code_simp
  have b: "user_markers_apart (markers start_manager)" by code_simp
  have c: "list_all (\<lambda>a. unclamped decimal_int a \<and> selection_ascending a) ?as"
    by code_simp
  then have c': "\<forall>a\<in>set ?as. unclamped decimal_int a \<and> selection_ascending a"
    unfolding list_all_iff .
  have d: "markers (run decimal_int start_manager ?as)
       = [mk 0 ''Marker0'', mk (1 / 2) ''Marker1'', mk 30 ''Marker2'', mk 100 ''Marker500'']"
    by code_simp
  from fixed_markers_and_spacing_kept[OF a b c'] a b c d show ?thesis by blast
qed

text \<open>
  The search for a close marker skips the fixed ones: with only the fixed markers in the
  list, the button path accepts a marker half a second after Marker0. The second run is the
  one of the claim below, as a run of two calls.
\<close>

lemma fixed_marker_distance_unchecked:
  "fixed_present (markers start_manager) \<and> no_marker_within_1_second (markers start_manager)
   \<and> user_markers_apart (markers start_manager)
   \<and> markers (run decimal_int start_manager
         [Add (idle_player\<lparr>preview_marker_time := Some (1 / 2)\<rparr>)])
       = [mk 0 ''Marker0'', mk (1 / 2) ''Marker1'', mk 100 ''Marker500'']
   \<and> \<not> no_marker_within_1_second (markers (run decimal_int start_manager
         [Add (idle_player\<lparr>preview_marker_time := Some (1 / 2)\<rparr>)]))
   \<and> markers (run decimal_int start_manager
         [Add_at_time (idle_player\<lparr>second_str := ''1''\<rparr>),
          Add_at_time (idle_player\<lparr>second_str := ''0''\<rparr>)])
       = [mk 0 ''Marker0'', mk (1 / 1000) ''Marker1'', mk 1 ''Marker2'', mk 100 ''Marker500'']
   \<and> \<not> user_markers_apart (markers (run decimal_int start_manager
         [Add_at_time (idle_player\<lparr>second_str := ''1''\<rparr>),
          Add_at_time (idle_player\<lparr>second_str := ''0''\<rparr>)]))"
proof -
  let ?ms = "markers (run decimal_int start_manager
         [Add (idle_player\<lparr>preview_marker_time := Some (1 / 2)\<rparr>)])"
  let ?ns = "markers (run decimal_int start_manager
         [Add_at_time (idle_player\<lparr>second_str := ''1''\<rparr>),
          Add_at_time (idle_player\<lparr>second_str := ''0''\<rparr>)])"
  have ms: "?ms = [mk 0 ''Marker0'', mk (1 / 2) ''Marker1'', mk 100 ''Marker500'']"
    by code_simp
  have ns: "?ns = [mk 0 ''Marker0'', mk (1 / 1000) ''Marker1'', mk 1 ''Marker2'', mk 100 ''Marker500'']"
    by code_simp
  have a: "fixed_present (markers start_manager)"
    by code_simp
  have b: "no_marker_within_1_second (markers start_manager)"
    unfolding no_marker_within_1_second_def start_manager_def fresh_manager_def
    by (simp add: less_Suc_eq numeral_2_eq_2 is_fixed_def mk_def)
  have c: "user_markers_apart (markers start_manager)"
    by code_simp
  have d: "\<not> no_marker_within_1_second ?ms"
  proof
    assume n: "no_marker_within_1_second ?ms"
    have "1 < length ?ms" "0 < length ?ms" unfolding ms by simp_all
    with n have "(1::nat) \<noteq> 0 \<and> \<not> is_fixed (?ms ! 1) \<longrightarrow> 1 \<le> \<bar>time (?ms ! 1) - time (?ms ! 0)\<bar>"
      unfolding no_marker_within_1_second_def by blast
    then show False unfolding ms by (simp add: is_fixed_def mk_def)
  qed
  have e: "\<not> user_markers_apart ?ns"
    unfolding ns by code_simp
  from a b c ms d ns e show ?thesis by blast
qed

text \<open>
  Claim C5. The source differs from the claim. Both add paths compare the requested time
  with the user markers before they clamp it. With a user marker at one second, a request
  at half a second is refused as too close; a request at zero is at distance 1.0, passes,
  and is then stored at 0.001, which is 0.999 seconds from that marker.
\<close>

theorem clamp_follows_spacing_check:
  "markers (snd (add_marker_at_time decimal_int (idle_player\<lparr>second_str := ''1''\<rparr>)
        start_manager))
     = [mk 0 ''Marker0'', mk 1 ''Marker1'', mk 100 ''Marker500'']
   \<and> add_marker_at_time decimal_int (idle_player\<lparr>millisecond_str := ''50''\<rparr>)
        (snd (add_marker_at_time decimal_int (idle_player\<lparr>second_str := ''1''\<rparr>) start_manager))
     = (Too_close 1,
        snd (add_marker_at_time decimal_int (idle_player\<lparr>second_str := ''1''\<rparr>) start_manager))
   \<and> fst (add_marker_at_time decimal_int (idle_player\<lparr>second_str := ''0''\<rparr>)
        (snd (add_marker_at_time decimal_int (idle_player\<lparr>second_str := ''1''\<rparr>) start_manager)))
     = Added_marker 0
   \<and> markers (snd (add_marker_at_time decimal_int (idle_player\<lparr>second_str := ''0''\<rparr>)
        (snd (add_marker_at_time decimal_int (idle_player\<lparr>second_str := ''1''\<rparr>) start_manager))))
     = [mk 0 ''Marker0'', mk (1 / 1000) ''Marker1'', mk 1 ''Marker2'', mk 100 ''Marker500'']
   \<and> markers (snd (add_marker decimal_int idle_player
        (snd (add_marker_at_time decimal_int (idle_player\<lparr>second_str := ''1''\<rparr>) start_manager))))
     = [mk 0 ''Marker0'', mk (1 / 1000) ''Marker1'', mk 1 ''Marker2'', mk 100 ''Marker500'']
   \<and> \<not> is_fixed (mk (1 / 1000) ''Marker1'') \<and> \<not> is_fixed (mk 1 ''Marker2'')
   \<and> \<bar>time (mk 1 ''Marker2'') - time (mk (1 / 1000) ''Marker1'')\<bar> < 1
   \<and> \<not> user_markers_apart
        [mk 0 ''Marker0'', mk (1 / 1000) ''Marker1'', mk 1 ''Marker2'', mk 100 ''Marker500'']"
  by code_simp

section \<open>Undo and redo\<close>

text \<open>
  What the calls do to the two stacks. The button path never records; every other mutating
  call either returns the manager as it was or pushes one record and empties the redo
  stack.
\<close>

lemma stacks_push:
  "undo_stack (push_to_undo_stack s operation)
     = (if length (undo_stack s @ [operation]) > max_history then tl (undo_stack s @ [operation])
        else undo_stack s @ [operation])"
  "redo_stack (push_to_undo_stack s operation) = []"
  by (simp_all add: push_to_undo_stack_def Let_def)

lemma last_push: "last (undo_stack (push_to_undo_stack s operation)) = operation"
  by (cases "undo_stack s") (simp_all add: push_to_undo_stack_def Let_def max_history_def)

lemma push_nonempty: "undo_stack (push_to_undo_stack s operation) \<noteq> []"
  by (cases "undo_stack s") (simp_all add: push_to_undo_stack_def Let_def max_history_def)

lemma add_marker_never_records:
  "undo_stack (snd (add_marker py_int p s)) = undo_stack s
   \<and> redo_stack (snd (add_marker py_int p s)) = redo_stack s"
proof (cases "current_file p \<and> length (markers s) < max_markers
    \<and> \<not> exceeds_valid_range p (requested_time py_int p)
    \<and> within_1_second (requested_time py_int p) (markers s) = None")
  case True
  with add_marker_accepted[of p s py_int] show ?thesis by auto
next
  case False
  then consider "\<not> current_file p" | "current_file p" "\<not> length (markers s) < max_markers"
    | "current_file p" "length (markers s) < max_markers"
      "exceeds_valid_range p (requested_time py_int p)"
    | m where "current_file p" "length (markers s) < max_markers"
      "\<not> exceeds_valid_range p (requested_time py_int p)"
      "within_1_second (requested_time py_int p) (markers s) = Some m"
    by (cases "within_1_second (requested_time py_int p) (markers s)") blast+
  then have "snd (add_marker py_int p s) = s"
    by cases (simp_all add: add_marker_def Let_def)
  then show ?thesis by simp
qed

lemma add_marker_at_time_records:
  "snd (add_marker_at_time py_int p s) = s
   \<or> (\<exists>t i m. fst (add_marker_at_time py_int p s) = Added_marker t
        \<and> last (undo_stack (snd (add_marker_at_time py_int p s))) = Add_marker i m
        \<and> redo_stack (snd (add_marker_at_time py_int p s)) = [])"
proof (cases "total_seconds py_int p")
  case None
  then have "snd (add_marker_at_time py_int p s) = s"
    by (simp add: add_marker_at_time_def)
  then show ?thesis by simp
next
  case (Some t)
  show ?thesis
  proof (cases "current_file p \<and> length (markers s) < max_markers
      \<and> \<not> exceeds_valid_range p t \<and> within_1_second t (markers s) = None")
    case True
    with add_marker_at_time_accepted[of p s py_int t] Some
    have "\<exists>i m. add_marker_at_time py_int p s =
         (Added_marker t,
          push_to_undo_stack
            (s\<lparr>markers := renumber_user_markers (sort_key time (markers s @ [new_marker_at t])),
               selected_marker_index := Some i\<rparr>)
            (Add_marker i m))"
      by simp
    then obtain i m where "add_marker_at_time py_int p s =
         (Added_marker t,
          push_to_undo_stack
            (s\<lparr>markers := renumber_user_markers (sort_key time (markers s @ [new_marker_at t])),
               selected_marker_index := Some i\<rparr>)
            (Add_marker i m))"
      by blast
    then show ?thesis by (simp add: stacks_push(2) last_push)
  next
    case False
    then consider "\<not> current_file p" | "current_file p" "\<not> length (markers s) < max_markers"
      | "current_file p" "length (markers s) < max_markers" "exceeds_valid_range p t"
      | m where "current_file p" "length (markers s) < max_markers"
        "\<not> exceeds_valid_range p t" "within_1_second t (markers s) = Some m"
      by (cases "within_1_second t (markers s)") blast+
    then have "snd (add_marker_at_time py_int p s) = s"
      by cases (simp_all add: add_marker_at_time_def Let_def Some)
    then show ?thesis by simp
  qed
qed

lemma delete_nearest_records:
  "snd (delete_nearest_marker p s) = s
   \<or> (\<exists>t i m. fst (delete_nearest_marker p s) = Deleted_nearest t
        \<and> last (undo_stack (snd (delete_nearest_marker p s))) = Delete_marker i m
        \<and> redo_stack (snd (delete_nearest_marker p s)) = [])"
  by (simp add: delete_nearest_marker_def Let_def stacks_push(2) last_push
        split: option.splits prod.splits)

lemma delete_all_records:
  "snd (delete_all_markers p s) = s
   \<or> (fst (delete_all_markers p s) = All_user_markers_deleted
        \<and> last (undo_stack (snd (delete_all_markers p s))) = Delete_all_markers (markers s)
        \<and> redo_stack (snd (delete_all_markers p s)) = [])"
  by (simp add: delete_all_markers_def Let_def stacks_push(2) last_push)

lemma delete_selected_records:
  "snd (delete_selected_marker p s) = s
   \<or> (\<exists>ms. last (undo_stack (snd (delete_selected_marker p s))) = Delete_markers ms
        \<and> redo_stack (snd (delete_selected_marker p s)) = [])"
  by (simp add: delete_selected_marker_def Let_def stacks_push(2) last_push split: sum.splits)

lemma update_records:
  "snd (update_selected_marker_time py_int p s) = s
   \<or> (\<exists>t i a. fst (update_selected_marker_time py_int p s) = Updated_marker t
        \<and> last (undo_stack (snd (update_selected_marker_time py_int p s))) = Move_marker i a t
        \<and> redo_stack (snd (update_selected_marker_time py_int p s)) = [])"
proof (cases "current_file p")
  case False
  then show ?thesis by (simp add: update_selected_marker_time_def)
next
  case loaded: True
  show ?thesis
  proof (cases "selected_marker_index s")
    case None
    with loaded show ?thesis by (simp add: update_selected_marker_time_def)
  next
    case (Some sel)
    show ?thesis
    proof (cases "sel < length (markers s)")
      case False
      with loaded Some show ?thesis by (simp add: update_selected_marker_time_def)
    next
      case sel: True
      show ?thesis
      proof (cases "total_seconds py_int p")
        case None
        with loaded Some sel show ?thesis by (simp add: update_selected_marker_time_def)
      next
        case t: (Some t)
        show ?thesis
        proof (cases "exceeds_valid_range p t")
          case True
          with loaded Some sel t show ?thesis by (simp add: update_selected_marker_time_def)
        next
          case range: False
          show ?thesis
          proof (cases "find (\<lambda>existing_marker.
                    \<not> (existing_marker = markers s ! sel \<or> is_fixed existing_marker)
                    \<and> \<bar>time existing_marker - t\<bar> < 1) (markers s)")
            case (Some m)
            with loaded \<open>selected_marker_index s = Some sel\<close> sel t range show ?thesis
              by (simp add: update_selected_marker_time_def)
          next
            case None
            define new_time where "new_time = (if t < 1 / 1000 then 1 / 1000 else t)"
            define marker_to_update where "marker_to_update = (markers s ! sel)\<lparr>time := new_time\<rparr>"
            define ms where "ms = sort_key time ((markers s)[sel := marker_to_update])"
            have "marker_to_update \<in> set ms"
              using sel by (simp add: ms_def set_update_memI)
            from list_index_Some[OF this] obtain i where i: "list_index ms marker_to_update = Some i" ..
            with loaded \<open>selected_marker_index s = Some sel\<close> sel t range None
            have "update_selected_marker_time py_int p s =
                (Updated_marker new_time,
                 (push_to_undo_stack s (Move_marker sel (time (markers s ! sel)) new_time))
                   \<lparr>markers := ms, selected_marker_index := Some i\<rparr>)"
              by (simp add: update_selected_marker_time_def Let_def new_time_def
                    marker_to_update_def ms_def)
            then show ?thesis by (simp add: stacks_push(2) last_push)
          qed
        qed
      qed
    qed
  qed
qed

text \<open>
  Undo with an empty stack reports and changes nothing; otherwise the last record goes to
  the redo stack, and symmetrically for redo. The records \<^verbatim>\<open>delete_marker\<close> and
  \<^verbatim>\<open>delete_all_markers\<close> are undone by putting the markers back.
\<close>

lemma undo_operation_stacks:
  "undo_stack (snd (undo_operation operation s)) = undo_stack s
   \<and> redo_stack (snd (undo_operation operation s)) = redo_stack s
   \<and> selected_marker_index (snd (undo_operation operation s)) = selected_marker_index s"
  by (cases operation) simp_all

lemma redo_operation_stacks:
  "undo_stack (snd (redo_operation operation s)) = undo_stack s
   \<and> redo_stack (snd (redo_operation operation s)) = redo_stack s
   \<and> selected_marker_index (snd (redo_operation operation s)) = selected_marker_index s"
  by (cases operation) simp_all

lemma undo_action_empty: "undo_stack s = [] \<Longrightarrow> undo_action s = (Nothing_to_undo, s)"
  by (simp add: undo_action_def)

lemma undo_action_moves_record:
  "undo_stack s \<noteq> [] \<Longrightarrow>
     undo_stack (snd (undo_action s)) = butlast (undo_stack s)
     \<and> redo_stack (snd (undo_action s)) = redo_stack s @ [last (undo_stack s)]"
  by (simp add: undo_action_def Let_def undo_operation_stacks)

lemma redo_action_empty: "redo_stack s = [] \<Longrightarrow> redo_action s = (Nothing_to_redo, s)"
  by (simp add: redo_action_def)

lemma redo_action_moves_record:
  "redo_stack s \<noteq> [] \<Longrightarrow>
     redo_stack (snd (redo_action s)) = butlast (redo_stack s)
     \<and> undo_stack (snd (redo_action s)) = undo_stack s @ [last (redo_stack s)]"
  by (simp add: redo_action_def Let_def redo_operation_stacks)

lemma undo_delete_marker_restores:
  "undo_stack s \<noteq> [] \<Longrightarrow> last (undo_stack s) = Delete_marker i m \<Longrightarrow>
     mset (markers (snd (undo_action s))) = add_mset m (mset (markers s))"
proof -
  assume a: "undo_stack s \<noteq> []" "last (undo_stack s) = Delete_marker i m"
  have "mset (take i (markers s)) + mset (drop i (markers s)) = mset (markers s)"
    by (simp only: mset_append[symmetric] append_take_drop_id)
  with a show ?thesis
    by (simp add: undo_action_def Let_def)
qed

lemma undo_delete_all_restores:
  "undo_stack s \<noteq> [] \<Longrightarrow> last (undo_stack s) = Delete_all_markers ms \<Longrightarrow>
     markers (snd (undo_action s)) = ms"
  by (simp add: undo_action_def Let_def)

lemma delete_nearest_then_undo:
  assumes "fst (delete_nearest_marker p s) = Deleted_nearest t"
  shows "mset (markers (snd (undo_action (snd (delete_nearest_marker p s))))) = mset (markers s)"
proof -
  from assms obtain i m where
    r: "delete_nearest_marker p s =
          (Deleted_nearest t,
           (push_to_undo_stack s (Delete_marker i m))\<lparr>markers := del_at i (markers s)\<rparr>)"
    and n: "nearest_marker (current_pos p) (enumerate 0 (markers s)) None = Some (i, m)"
    by (auto simp: delete_nearest_marker_def Let_def split: option.splits prod.splits if_splits)
  from nearest_marker_in[OF n] have i: "i < length (markers s)" "markers s ! i = m"
    by (auto simp: in_set_enumerate_eq)
  let ?s1 = "(push_to_undo_stack s (Delete_marker i m))\<lparr>markers := del_at i (markers s)\<rparr>"
  have u: "undo_stack ?s1 \<noteq> []" "last (undo_stack ?s1) = Delete_marker i m"
    by (simp_all add: push_nonempty last_push)
  from undo_delete_marker_restores[OF u]
  have "mset (markers (snd (undo_action ?s1))) = add_mset m (mset (del_at i (markers s)))"
    by simp
  also have "\<dots> = mset (take i (markers s) @ markers s ! i # drop (Suc i) (markers s))"
    using i by (simp add: del_at_def)
  also have "\<dots> = mset (markers s)"
    using id_take_nth_drop[OF i(1)] by simp
  finally show ?thesis by (simp add: r)
qed

text \<open>
  Claim C2. The source differs from the claim. After \<^verbatim>\<open>delete_all_markers\<close> the list
  holds the two fixed markers; \<^verbatim>\<open>undo_action\<close> followed by \<^verbatim>\<open>redo_action\<close> leaves the
  empty list, because the redo branch clears the whole list. After a move that changes the
  order of the list, undo followed by redo addresses the marker by the index it had before
  the sort and leaves a list that is not the one the move produced.
\<close>

theorem redo_after_undo_differs:
  "markers (snd (delete_all_markers idle_player one_marker_manager))
     = [mk 0 ''Marker0'', mk 100 ''Marker500'']
   \<and> markers (snd (redo_action (snd (undo_action
        (snd (delete_all_markers idle_player one_marker_manager)))))) = []
   \<and> markers (snd (update_selected_marker_time decimal_int (idle_player\<lparr>second_str := ''30''\<rparr>)
        two_marker_manager))
     = [mk 0 ''Marker0'', mk 20 ''Marker2'', mk 30 ''Marker1'', mk 100 ''Marker500'']
   \<and> markers (snd (redo_action (snd (undo_action
        (snd (update_selected_marker_time decimal_int (idle_player\<lparr>second_str := ''30''\<rparr>)
           two_marker_manager))))))
     = [mk 0 ''Marker0'', mk 30 ''Marker2'', mk 30 ''Marker1'', mk 100 ''Marker500'']"
  by code_simp

text \<open>
  Claim C3. The source differs from the claim. \<^verbatim>\<open>delete_selected_marker\<close> records the
  action \<^verbatim>\<open>delete_markers\<close>, for which \<^verbatim>\<open>undo_action\<close> has no branch: the record goes
  from the undo stack to the redo stack and the deleted marker is not inserted again. The
  inverse of a move is applied at the recorded index, which after the sort can be another
  marker.
\<close>

theorem undo_skips_delete_markers:
  "delete_selected_marker (idle_player\<lparr>curselection := [1]\<rparr>) one_marker_manager
     = (Deleted_markers 1,
        \<lparr>markers = [mk 0 ''Marker0'', mk 100 ''Marker500''],
         undo_stack = [Delete_markers [mk 10 ''Marker1'']], redo_stack = [],
         selected_marker_index = None\<rparr>)
   \<and> undo_action (snd (delete_selected_marker (idle_player\<lparr>curselection := [1]\<rparr>)
        one_marker_manager))
     = (Status_unchanged,
        \<lparr>markers = [mk 0 ''Marker0'', mk 100 ''Marker500''],
         undo_stack = [], redo_stack = [Delete_markers [mk 10 ''Marker1'']],
         selected_marker_index = None\<rparr>)
   \<and> markers (snd (undo_action (snd (update_selected_marker_time decimal_int
        (idle_player\<lparr>second_str := ''30''\<rparr>) two_marker_manager))))
     = [mk 0 ''Marker0'', mk 10 ''Marker2'', mk 30 ''Marker1'', mk 100 ''Marker500'']"
  by code_simp

text \<open>
  Claim C4. The source differs from the claim. \<^verbatim>\<open>add_marker\<close> adds the marker and leaves
  the undo stack as it was, whereas \<^verbatim>\<open>add_marker_at_time\<close> on the same request pushes an
  \<^verbatim>\<open>add_marker\<close> record.
\<close>

theorem add_marker_leaves_undo_stack:
  "add_marker decimal_int (idle_player\<lparr>preview_marker_time := Some 10\<rparr>) start_manager
     = (Added_marker 10,
        \<lparr>markers = [mk 0 ''Marker0'', mk 10 ''Marker1'', mk 100 ''Marker500''],
         undo_stack = [], redo_stack = [], selected_marker_index = Some 1\<rparr>)
   \<and> add_marker_at_time decimal_int (idle_player\<lparr>second_str := ''10''\<rparr>) start_manager
     = (Added_marker 10,
        \<lparr>markers = [mk 0 ''Marker0'', mk 10 ''Marker1'', mk 100 ''Marker500''],
         undo_stack = [Add_marker 1 (mk 10 ''Marker1'')], redo_stack = [],
         selected_marker_index = Some 1\<rparr>)"
  by code_simp

end
